theory Spec2Isabelle
  imports Complex_Main "HOL-Library.Monad_Syntax"
begin

section \<open>Data model\<close>

text \<open>
  A shallow embedding of the roulette ingestion job (\<^verbatim>\<open>scripts/process-roulette-data.ts\<close>,
  \<^verbatim>\<open>app/api/scores/schemas.ts\<close>) and of the retention job
  (\<^verbatim>\<open>scripts/cleanup-old-roulette-events.js\<close> and the cleaner route). The repository
  holds further copies of the ingestion job; the route under \<^verbatim>\<open>app/api/scores\<close> has
  the same pipeline as the script modelled here, an older route reads one watermark for
  the whole fact table, and a standalone JavaScript script validates parity and colour
  as plain strings.

  A JavaScript \<^verbatim>\<open>Date\<close> and a \<^verbatim>\<open>TIMESTAMP WITH TIME ZONE\<close> are both an
  instant: the number of milliseconds since the epoch, an \<open>int\<close>. The schema rejects an
  invalid date, so no \<^verbatim>\<open>NaN\<close> instant reaches the pipeline. A JSON number is parsed
  to a finite double, which is a rational number: numbers are of type \<open>rat\<close>.
\<close>

type_synonym date = int

subsection \<open>Parsed JSON\<close>

datatype json =
    JNull
  | JBool bool
  | JNumber rat
  | JString string
  | JArray "json list"
  | JObject "(string \<times> json) list"

subsection \<open>The validated event (\<^verbatim>\<open>schemas.ts\<close>)\<close>

record RouletteOutcome =
  number_outcome :: rat
  type_outcome :: string
  color_outcome :: string

record RouletteTable =
  id_table :: string
  name_table :: string

record LuckyNumber =
  number_lucky :: rat
  roundedMultiplier :: rat

record RouletteResult =
  outcome :: RouletteOutcome
  luckyNumbersList :: "LuckyNumber list option"

record RouletteData =
  id_data :: string
  startedAt :: date
  settledAt :: date
  status :: string
  gameType :: string
  table_data :: RouletteTable
  result_data :: RouletteResult

record RouletteEvent =
  id_event :: string
  data :: RouletteData

subsection \<open>Errors\<close>

text \<open>
  The source throws plain \<^verbatim>\<open>Error\<close> values; the constructors name the place that
  throws: the fetch (\<^verbatim>\<open>HTTP error! status\<close>), the schema (\<^verbatim>\<open>ZodError\<close>), the
  missing cache entry (\<^verbatim>\<open>Invalid fields!\<close>), a rejected SQL statement, and the
  evaluation of an identifier that no enclosing scope declares.
\<close>

datatype error =
    FetchError int
  | ValidationError
  | IntegrityError
  | StorageError
  | ReferenceError

subsection \<open>The persisted store\<close>

record casino_row =
  casino_pk :: int
  table_id :: string
  table_name :: string
  casino_created_at :: date

record roulette_events_row =
  roulette_events_pk :: int
  event_id :: string
  started_at :: date
  settled_at :: date
  outcome_number :: int
  outcome_type :: string
  outcome_color :: string
  casino_id :: int
  created_at :: date

text \<open>The row the pipeline builds for the bulk insert (\<^verbatim>\<open>rouletteEventsData\<close>).\<close>

record roulette_events_data =
  event_id_new :: string
  started_at_new :: date
  settled_at_new :: date
  outcome_number_new :: rat
  outcome_type_new :: string
  outcome_color_new :: string
  casino_id_new :: int

text \<open>Every SQL statement a run issues, in the order issued.\<close>

datatype statement =
    SelectLatestSettled string
  | SelectCasino string string
  | InsertCasino string string
  | InsertRouletteEvents "roulette_events_data list"
  | DeleteRouletteEvents date

text \<open>
  The two tables, the two \<^verbatim>\<open>SERIAL\<close> sequences (the next value each hands out) and
  the statements issued so far. The \<^verbatim>\<open>error_logs\<close> table is bookkeeping and is not
  modelled; \<^verbatim>\<open>createTables\<close> is \<^verbatim>\<open>CREATE TABLE IF NOT EXISTS\<close> and leaves
  existing tables as they are.
\<close>

record db =
  casino :: "casino_row list"
  roulette_events :: "roulette_events_row list"
  casino_id_seq :: int
  roulette_events_id_seq :: int
  issued :: "statement list"

definition issue :: "statement \<Rightarrow> db \<Rightarrow> db" where
  "issue q s = s\<lparr>issued := issued s @ [q]\<rparr>"

text \<open>
  What the store takes in one bulk insert into the fact table. The SQL client sends the
  values of the rows as parameters of one statement, and the store reads each parameter
  into its column: \<open>integer_input\<close> is the reading of a JavaScript number into the
  \<^verbatim>\<open>INTEGER\<close> column (\<open>None\<close> when the column cannot hold the number),
  \<open>timestamp_input\<close> tells the instants the timestamp columns can hold, and
  \<open>max_rows\<close> is the greatest number of rows whose values fit one statement. These
  limits belong to the store and its client, not to the repository: they are a parameter.
\<close>

record store_limits =
  integer_input :: "rat \<Rightarrow> int option"
  timestamp_input :: "date \<Rightarrow> bool"
  max_rows :: nat

section \<open>Schema validator\<close>

text \<open>
  \<^verbatim>\<open>z.object\<close> accepts an object and reads its keys (unknown keys are stripped); a
  missing key reads as \<^verbatim>\<open>undefined\<close>, here \<open>None\<close>. A parsed object has each
  of its keys once.
\<close>

fun key :: "json \<Rightarrow> string \<Rightarrow> json option" where
  "key (JObject kvs) k = map_of kvs k"
| "key _ k = None"

fun z_string :: "json option \<Rightarrow> string option" where
  "z_string (Some (JString s)) = Some s"
| "z_string _ = None"

fun z_number :: "json option \<Rightarrow> rat option" where
  "z_number (Some (JNumber n)) = Some n"
| "z_number _ = None"

text \<open>\<^verbatim>\<open>z.literal([...])\<close>: the input is one of the listed strings, unchanged.\<close>

fun z_literal :: "string list \<Rightarrow> json option \<Rightarrow> string option" where
  "z_literal lits (Some (JString s)) = (if s \<in> set lits then Some s else None)"
| "z_literal lits _ = None"

fun z_object :: "json option \<Rightarrow> json option" where
  "z_object (Some (JObject kvs)) = Some (JObject kvs)"
| "z_object _ = None"

fun z_array :: "(json option \<Rightarrow> 'a option) \<Rightarrow> json option \<Rightarrow> 'a list option" where
  "z_array f (Some (JArray xs)) = those (map (\<lambda>x. f (Some x)) xs)"
| "z_array f _ = None"

fun z_optional :: "(json option \<Rightarrow> 'a option) \<Rightarrow> json option \<Rightarrow> 'a option option" where
  "z_optional f None = Some None"
| "z_optional f (Some j) = map_option Some (f (Some j))"

definition RouletteOutcomeSchema :: "json option \<Rightarrow> RouletteOutcome option" where
  "RouletteOutcomeSchema i = do {
     j \<leftarrow> z_object i;
     n \<leftarrow> z_number (key j ''number'');
     t \<leftarrow> z_literal [''Even'', ''Odd''] (key j ''type'');
     c \<leftarrow> z_literal [''Red'', ''Black'', ''Green''] (key j ''color'');
     Some \<lparr>number_outcome = n, type_outcome = t, color_outcome = c\<rparr>
   }"

definition RouletteTableSchema :: "json option \<Rightarrow> RouletteTable option" where
  "RouletteTableSchema i = do {
     j \<leftarrow> z_object i;
     a \<leftarrow> z_string (key j ''id'');
     b \<leftarrow> z_string (key j ''name'');
     Some \<lparr>id_table = a, name_table = b\<rparr>
   }"

definition LuckyNumberSchema :: "json option \<Rightarrow> LuckyNumber option" where
  "LuckyNumberSchema i = do {
     j \<leftarrow> z_object i;
     n \<leftarrow> z_number (key j ''number'');
     m \<leftarrow> z_number (key j ''roundedMultiplier'');
     Some \<lparr>number_lucky = n, roundedMultiplier = m\<rparr>
   }"

definition RouletteResultSchema :: "json option \<Rightarrow> RouletteResult option" where
  "RouletteResultSchema i = do {
     j \<leftarrow> z_object i;
     oc \<leftarrow> RouletteOutcomeSchema (key j ''outcome'');
     l \<leftarrow> z_optional (z_array LuckyNumberSchema) (key j ''luckyNumbersList'');
     Some \<lparr>outcome = oc, luckyNumbersList = l\<rparr>
   }"

text \<open>
  \<^verbatim>\<open>z.coerce.date()\<close> is \<^verbatim>\<open>new Date(input)\<close> followed by the rejection of an
  invalid date. What \<^verbatim>\<open>new Date\<close> makes of an input is the JavaScript engine's
  business, so the coercion is a parameter \<open>coerce_date\<close>: \<open>None\<close> is the invalid date.
\<close>

definition RouletteDataSchema ::
  "(json option \<Rightarrow> date option) \<Rightarrow> json option \<Rightarrow> RouletteData option" where
  "RouletteDataSchema coerce_date i = do {
     j \<leftarrow> z_object i;
     a \<leftarrow> z_string (key j ''id'');
     b \<leftarrow> coerce_date (key j ''startedAt'');
     c \<leftarrow> coerce_date (key j ''settledAt'');
     d \<leftarrow> z_string (key j ''status'');
     g \<leftarrow> z_string (key j ''gameType'');
     t \<leftarrow> RouletteTableSchema (key j ''table'');
     r \<leftarrow> RouletteResultSchema (key j ''result'');
     Some \<lparr>id_data = a, startedAt = b, settledAt = c, status = d, gameType = g,
            table_data = t, result_data = r\<rparr>
   }"

definition RouletteEventSchema ::
  "(json option \<Rightarrow> date option) \<Rightarrow> json option \<Rightarrow> RouletteEvent option" where
  "RouletteEventSchema coerce_date i = do {
     j \<leftarrow> z_object i;
     a \<leftarrow> z_string (key j ''id'');
     d \<leftarrow> RouletteDataSchema coerce_date (key j ''data'');
     Some \<lparr>id_event = a, data = d\<rparr>
   }"

text \<open>\<^verbatim>\<open>RouletteEventsArraySchema.parse\<close>: the events, or the thrown \<^verbatim>\<open>ZodError\<close>.\<close>

definition RouletteEventsArraySchema_parse ::
  "(json option \<Rightarrow> date option) \<Rightarrow> json \<Rightarrow> error + RouletteEvent list" where
  "RouletteEventsArraySchema_parse coerce_date events =
     (case z_array (RouletteEventSchema coerce_date) (Some events) of
        None \<Rightarrow> Inl ValidationError
      | Some validatedFields \<Rightarrow> Inr validatedFields)"

section \<open>Ingestion pipeline (\<^verbatim>\<open>processRouletteData\<close>)\<close>

subsection \<open>Fetch\<close>

record response =
  ok :: bool
  status_code :: int
  json_body :: json

definition fetchRouletteData :: "response \<Rightarrow> error + json" where
  "fetchRouletteData response =
     (if \<not> ok response then Inl (FetchError (status_code response))
      else Inr (json_body response))"

subsection \<open>Watermark resolver\<close>

text \<open>A JavaScript \<^verbatim>\<open>Set\<close> keeps its members in the order of their first insertion.\<close>

definition Set_add :: "'a list \<Rightarrow> 'a \<Rightarrow> 'a list" where
  "Set_add S x = (if x \<in> set S then S else S @ [x])"

definition uniqueTableIds :: "RouletteEvent list \<Rightarrow> string list" where
  "uniqueTableIds validatedFields =
     foldl (\<lambda>S event. Set_add S (id_table (table_data (data event)))) [] validatedFields"

text \<open>
  \<^verbatim>\<open>SELECT MAX(re.settled_at) FROM roulette_events re JOIN casino c ON re.casino_id = c.id
  WHERE c.table_id = tableId\<close>: \<open>None\<close> is the SQL \<^verbatim>\<open>NULL\<close> of an empty join.
\<close>

definition latest_settled_at :: "db \<Rightarrow> string \<Rightarrow> date option" where
  "latest_settled_at s tableId =
     (case [settled_at re. re \<leftarrow> roulette_events s, c \<leftarrow> casino s,
              casino_id re = casino_pk c, table_id c = tableId] of
        [] \<Rightarrow> None
      | x # xs \<Rightarrow> Some (fold max xs x))"

definition casinoQuery :: "db \<Rightarrow> string \<Rightarrow> (string \<times> date option) \<times> db" where
  "casinoQuery s tableId =
     ((tableId, latest_settled_at s tableId), issue (SelectLatestSettled tableId) s)"

text \<open>
  \<^verbatim>\<open>Promise.all(casinoQueries)\<close>: the queries only read, so the order in which the
  store answers them does not matter; they are taken in array order.
\<close>

fun casinoQueries :: "db \<Rightarrow> string list \<Rightarrow> (string \<times> date option) list \<times> db" where
  "casinoQueries s [] = ([], s)"
| "casinoQueries s (tableId # rest) =
     (case casinoQuery s tableId of
        (r, s1) \<Rightarrow> (case casinoQueries s1 rest of (rs, s2) \<Rightarrow> (r # rs, s2)))"

text \<open>A \<^verbatim>\<open>Date\<close> object is truthy, so \<^verbatim>\<open>if (latestSettledAt)\<close> tests for \<^verbatim>\<open>null\<close>.\<close>

definition casinoLatestSettledMap :: "(string \<times> date option) list \<Rightarrow> (string \<rightharpoonup> date)" where
  "casinoLatestSettledMap latestSettledResults =
     foldl (\<lambda>m (tableId, latestSettledAt).
              case latestSettledAt of None \<Rightarrow> m | Some d \<Rightarrow> m(tableId \<mapsto> d))
       Map.empty latestSettledResults"

subsection \<open>Filter\<close>

definition admitted :: "(string \<rightharpoonup> date) \<Rightarrow> RouletteEvent \<Rightarrow> bool" where
  "admitted m event =
     (if status (data event) \<noteq> ''Resolved'' then False
      else case m (id_table (table_data (data event))) of
             None \<Rightarrow> True
           | Some latestSettledAt \<Rightarrow> settledAt (data event) > latestSettledAt)"

definition resolvedEvents :: "(string \<rightharpoonup> date) \<Rightarrow> RouletteEvent list \<Rightarrow> RouletteEvent list" where
  "resolvedEvents m validatedFields = filter (admitted m) validatedFields"

subsection \<open>Dimension resolver\<close>

text \<open>
  \<^verbatim>\<open>uniqueTables\<close> is a \<^verbatim>\<open>Map\<close> from table id to table name, filled only when the
  id is not yet a key; \<^verbatim>\<open>Array.from\<close> lists its entries in insertion order.
\<close>

definition uniqueTables :: "RouletteEvent list \<Rightarrow> (string \<times> string) list" where
  "uniqueTables resolved =
     foldl (\<lambda>m event.
              let t = table_data (data event)
              in if id_table t \<in> fst ` set m then m else m @ [(id_table t, name_table t)])
       [] resolved"

text \<open>\<^verbatim>\<open>SELECT id FROM casino WHERE table_id = tableId AND table_name = tableName\<close>.\<close>

definition select_casino :: "db \<Rightarrow> string \<Rightarrow> string \<Rightarrow> int list" where
  "select_casino s tableId tableName =
     [casino_pk c. c \<leftarrow> casino s, table_id c = tableId \<and> table_name c = tableName]"

text \<open>
  \<^verbatim>\<open>INSERT INTO casino (table_id, table_name) VALUES (...) RETURNING id\<close>. The column
  \<^verbatim>\<open>table_id\<close> is \<^verbatim>\<open>UNIQUE\<close>: the statement is rejected when a row already
  carries the table id. The sequence hands out its value before the constraint is checked.
\<close>

definition insert_casino :: "date \<Rightarrow> db \<Rightarrow> string \<Rightarrow> string \<Rightarrow> (error + int) \<times> db" where
  "insert_casino now s tableId tableName =
     (let new_id = casino_id_seq s;
          s1 = (issue (InsertCasino tableId tableName) s)\<lparr>casino_id_seq := new_id + 1\<rparr>
      in if tableId \<in> table_id ` set (casino s) then (Inl StorageError, s1)
         else (Inr new_id,
               s1\<lparr>casino := casino s @
                      [\<lparr>casino_pk = new_id, table_id = tableId, table_name = tableName,
                        casino_created_at = now\<rparr>]\<rparr>))"

text \<open>
  \<^verbatim>\<open>casinoPromises\<close> maps an async function over the entries of \<^verbatim>\<open>uniqueTables\<close>.
  Every call runs up to its first \<^verbatim>\<open>await\<close> when it is made, so the lookups of all
  entries are issued, in array order, before any answer arrives; they only read, and each
  is answered from the store \<open>s\<close>. An entry whose lookup found no row then issues its
  insert; an entry whose lookup found rows takes the id of the first.
\<close>

definition casinoLookups ::
  "db \<Rightarrow> (string \<times> string) list \<Rightarrow> ((string \<times> string) \<times> int list) list \<times> db" where
  "casinoLookups s entries =
     (map (\<lambda>(tableId, tableName). ((tableId, tableName), select_casino s tableId tableName))
        entries,
      s\<lparr>issued := issued s @ map (\<lambda>(tableId, tableName). SelectCasino tableId tableName) entries\<rparr>)"

text \<open>
  The second half of every entry, taken in array order: each entry settles with its pair
  of table id and casino id, or with the error of its insert. A rejected insert ends its
  own entry only; the other entries run on. The entries have distinct table ids, so
  another order of the inserts changes only which sequence value each of them draws.
\<close>

fun casinoInserts ::
  "date \<Rightarrow> db \<Rightarrow> ((string \<times> string) \<times> int list) list \<Rightarrow>
     (error + string \<times> int) list \<times> db" where
  "casinoInserts now s [] = ([], s)"
| "casinoInserts now s (((tableId, tableName), casinoResult) # rest) =
     (case casinoResult of
        [] \<Rightarrow>
          (case insert_casino now s tableId tableName of
             (Inl e, s1) \<Rightarrow>
               (case casinoInserts now s1 rest of (outcomes, s2) \<Rightarrow> (Inl e # outcomes, s2))
           | (Inr new_id, s1) \<Rightarrow>
               (case casinoInserts now s1 rest of
                  (outcomes, s2) \<Rightarrow> (Inr (tableId, new_id) # outcomes, s2)))
      | found # _ \<Rightarrow>
          (case casinoInserts now s rest of
             (outcomes, s2) \<Rightarrow> (Inr (tableId, found) # outcomes, s2)))"

text \<open>
  \<^verbatim>\<open>Promise.all\<close>: the values in array order when every entry has a value, the first
  rejection otherwise.
\<close>

fun Promise_all :: "(error + 'a) list \<Rightarrow> error + 'a list" where
  "Promise_all [] = Inr []"
| "Promise_all (Inl e # rest) = Inl e"
| "Promise_all (Inr x # rest) =
     (case Promise_all rest of Inl e \<Rightarrow> Inl e | Inr xs \<Rightarrow> Inr (x # xs))"

text \<open>
  \<^verbatim>\<open>await Promise.all(casinoPromises)\<close>, with the store as it is once every entry has
  settled. Between the answers to the lookups and the inserts, statements of other runs
  on the same store may take effect: \<open>others\<close> is what they do to the store.
\<close>

definition casinoPromises_between ::
  "(db \<Rightarrow> db) \<Rightarrow> date \<Rightarrow> db \<Rightarrow> (string \<times> string) list \<Rightarrow>
     (error + (string \<times> int) list) \<times> db" where
  "casinoPromises_between others now s entries =
     (case casinoLookups s entries of
        (looked, s1) \<Rightarrow>
          (case casinoInserts now (others s1) looked of
             (outcomes, s2) \<Rightarrow> (Promise_all outcomes, s2)))"

text \<open>A run that is alone on the store.\<close>

definition casinoPromises ::
  "date \<Rightarrow> db \<Rightarrow> (string \<times> string) list \<Rightarrow> (error + (string \<times> int) list) \<times> db" where
  "casinoPromises now s entries = casinoPromises_between (\<lambda>s. s) now s entries"

definition casinoCache :: "(string \<times> int) list \<Rightarrow> (string \<rightharpoonup> int)" where
  "casinoCache casinoResults =
     foldl (\<lambda>m (tableId, casinoId). m(tableId \<mapsto> casinoId)) Map.empty casinoResults"

subsection \<open>Fact rows\<close>

text \<open>
  \<^verbatim>\<open>if (!casinoId) throw new Error("Invalid fields!")\<close>: the test holds for a missing
  cache entry (\<^verbatim>\<open>undefined\<close>) and for the number \<open>0\<close>.
\<close>

definition eventRow :: "RouletteEvent \<Rightarrow> int \<Rightarrow> roulette_events_data" where
  "eventRow event casinoId =
     \<lparr>event_id_new = id_data (data event),
      started_at_new = startedAt (data event),
      settled_at_new = settledAt (data event),
      outcome_number_new = number_outcome (outcome (result_data (data event))),
      outcome_type_new = type_outcome (outcome (result_data (data event))),
      outcome_color_new = color_outcome (outcome (result_data (data event))),
      casino_id_new = casinoId\<rparr>"

fun rouletteEventsData ::
  "(string \<rightharpoonup> int) \<Rightarrow> RouletteEvent list \<Rightarrow> error + roulette_events_data list" where
  "rouletteEventsData cache [] = Inr []"
| "rouletteEventsData cache (event # rest) =
     (case cache (id_table (table_data (data event))) of
        None \<Rightarrow> Inl IntegrityError
      | Some casinoId \<Rightarrow>
          if casinoId = 0 then Inl IntegrityError
          else (case rouletteEventsData cache rest of
                  Inl e \<Rightarrow> Inl e
                | Inr rows \<Rightarrow> Inr (eventRow event casinoId # rows)))"

text \<open>
  \<^verbatim>\<open>INSERT INTO roulette_events ... ON CONFLICT (event_id) DO NOTHING\<close>, one statement
  for all rows. The store rejects the statement as a whole, and inserts nothing, when the
  rows are more than one statement can carry or when a value of a row cannot be read
  into its column.
\<close>

definition row_accepted :: "store_limits \<Rightarrow> roulette_events_data \<Rightarrow> bool" where
  "row_accepted limits r =
     (integer_input limits (outcome_number_new r) \<noteq> None \<and>
      timestamp_input limits (started_at_new r) \<and>
      timestamp_input limits (settled_at_new r))"

definition statement_accepted :: "store_limits \<Rightarrow> roulette_events_data list \<Rightarrow> bool" where
  "statement_accepted limits rows =
     (length rows \<le> max_rows limits \<and> list_all (row_accepted limits) rows)"

text \<open>
  A row of an accepted statement whose event id is already in the table (stored before,
  or inserted earlier by this same statement) is skipped; a skipped row has still drawn
  its sequence value. The number of an accepted row has a reading, so the case \<open>None\<close>
  below is not met.
\<close>

definition insert_row :: "store_limits \<Rightarrow> date \<Rightarrow> db \<Rightarrow> roulette_events_data \<Rightarrow> db" where
  "insert_row limits now s r =
     (let new_id = roulette_events_id_seq s;
          s1 = s\<lparr>roulette_events_id_seq := new_id + 1\<rparr>
      in if event_id_new r \<in> event_id ` set (roulette_events s) then s1
         else (case integer_input limits (outcome_number_new r) of
                 None \<Rightarrow> s1
               | Some n \<Rightarrow>
                   s1\<lparr>roulette_events := roulette_events s @
                        [\<lparr>roulette_events_pk = new_id, event_id = event_id_new r,
                          started_at = started_at_new r, settled_at = settled_at_new r,
                          outcome_number = n,
                          outcome_type = outcome_type_new r,
                          outcome_color = outcome_color_new r,
                          casino_id = casino_id_new r, created_at = now\<rparr>]\<rparr>))"

definition insert_roulette_events ::
  "store_limits \<Rightarrow> date \<Rightarrow> db \<Rightarrow> roulette_events_data list \<Rightarrow> (error + unit) \<times> db" where
  "insert_roulette_events limits now s rows =
     (let s1 = issue (InsertRouletteEvents rows) s
      in if statement_accepted limits rows then (Inr (), foldl (insert_row limits now) s1 rows)
         else (Inl StorageError, s1))"

subsection \<open>The orchestrator\<close>

text \<open>
  The part of \<^verbatim>\<open>processRouletteData\<close> after the parse. \<open>now\<close> is the store's clock
  (\<^verbatim>\<open>DEFAULT NOW()\<close>), one reading for the run. The result pairs what the function
  returns or throws with the store it leaves. \<open>others\<close> is what other runs do to the
  store while the dimension resolver of this run is between its lookups and its inserts.
\<close>

definition processValidatedFields_between ::
  "store_limits \<Rightarrow> (db \<Rightarrow> db) \<Rightarrow> date \<Rightarrow> RouletteEvent list \<Rightarrow> db \<Rightarrow> (error + nat) \<times> db" where
  "processValidatedFields_between limits others now validatedFields s =
     (case casinoQueries s (uniqueTableIds validatedFields) of
        (latestSettledResults, s1) \<Rightarrow>
          (let resolved = resolvedEvents (casinoLatestSettledMap latestSettledResults)
                            validatedFields
           in if length resolved = 0 then (Inr 0, s1)
              else (case casinoPromises_between others now s1 (uniqueTables resolved) of
                      (Inl e, s2) \<Rightarrow> (Inl e, s2)
                    | (Inr casinoResults, s2) \<Rightarrow>
                        (case rouletteEventsData (casinoCache casinoResults) resolved of
                           Inl e \<Rightarrow> (Inl e, s2)
                         | Inr rows \<Rightarrow>
                             if length rows > 0
                             then (case insert_roulette_events limits now s2 rows of
                                     (Inl e, s3) \<Rightarrow> (Inl e, s3)
                                   | (Inr u, s3) \<Rightarrow> (Inr (length resolved), s3))
                             else (Inr (length resolved), s2)))))"

text \<open>A run that is alone on the store.\<close>

definition processValidatedFields ::
  "store_limits \<Rightarrow> date \<Rightarrow> RouletteEvent list \<Rightarrow> db \<Rightarrow> (error + nat) \<times> db" where
  "processValidatedFields limits now validatedFields s =
     processValidatedFields_between limits (\<lambda>s. s) now validatedFields s"

definition processRouletteData ::
  "store_limits \<Rightarrow> (json option \<Rightarrow> date option) \<Rightarrow> date \<Rightarrow> response \<Rightarrow> db \<Rightarrow>
     (error + nat) \<times> db" where
  "processRouletteData limits coerce_date now response s =
     (case fetchRouletteData response of
        Inl e \<Rightarrow> (Inl e, s)
      | Inr events \<Rightarrow>
          (case RouletteEventsArraySchema_parse coerce_date events of
             Inl e \<Rightarrow> (Inl e, s)
           | Inr validatedFields \<Rightarrow> processValidatedFields limits now validatedFields s))"

text \<open>
  The to-ingest set of a run on the store \<open>s\<close>: the value of \<^verbatim>\<open>resolvedEvents\<close>
  in \<^verbatim>\<open>processRouletteData\<close>.
\<close>

definition to_ingest :: "db \<Rightarrow> RouletteEvent list \<Rightarrow> RouletteEvent list" where
  "to_ingest s validatedFields =
     resolvedEvents (casinoLatestSettledMap (fst (casinoQueries s (uniqueTableIds validatedFields))))
       validatedFields"

text \<open>\<^verbatim>\<open>event.data.table.id\<close> and \<^verbatim>\<open>event.data.table.name\<close>.\<close>

abbreviation tid :: "RouletteEvent \<Rightarrow> string" where
  "tid event \<equiv> id_table (table_data (data event))"

abbreviation tname :: "RouletteEvent \<Rightarrow> string" where
  "tname event \<equiv> name_table (table_data (data event))"

section \<open>Retention pruner (\<^verbatim>\<open>cleanupOldRouletteEvents\<close>)\<close>

subsection \<open>The \<^verbatim>\<open>Date\<close> arithmetic of \<^verbatim>\<open>setMonth(getMonth() - 3)\<close>\<close>

text \<open>
  The abstract operations of the language standard on time values, over the proleptic
  Gregorian calendar. \<open>days_from_civil y m d\<close> is the day number (days since the epoch)
  of the civil date with month \<open>m\<close> from 1 to 12; \<open>civil_from_days\<close> is its inverse.
  Division and remainder on \<open>int\<close> round towards minus infinity, as the standard's
  \<^verbatim>\<open>floor\<close> and \<^verbatim>\<open>modulo\<close> do. The local time zone is a fixed offset \<open>tza\<close> in
  milliseconds (no daylight saving changes).
\<close>

definition msPerDay :: int where
  "msPerDay = 86400000"

definition days_from_civil :: "int \<Rightarrow> int \<Rightarrow> int \<Rightarrow> int" where
  "days_from_civil y m d =
     (let y1 = (if m \<le> 2 then y - 1 else y);
          era = y1 div 400;
          yoe = y1 - era * 400;
          doy = (153 * (if m > 2 then m - 3 else m + 9) + 2) div 5 + d - 1;
          doe = yoe * 365 + yoe div 4 - yoe div 100 + doy
      in era * 146097 + doe - 719468)"

definition civil_from_days :: "int \<Rightarrow> int \<times> int \<times> int" where
  "civil_from_days z =
     (let z1 = z + 719468;
          era = z1 div 146097;
          doe = z1 - era * 146097;
          yoe = (doe - doe div 1460 + doe div 36524 - doe div 146096) div 365;
          doy = doe - (365 * yoe + yoe div 4 - yoe div 100);
          mp = (5 * doy + 2) div 153;
          d = doy - (153 * mp + 2) div 5 + 1;
          m = (if mp < 10 then mp + 3 else mp - 9)
      in (if m \<le> 2 then yoe + era * 400 + 1 else yoe + era * 400, m, d))"

definition Day :: "date \<Rightarrow> int" where
  "Day t = t div msPerDay"

definition TimeWithinDay :: "date \<Rightarrow> int" where
  "TimeWithinDay t = t mod msPerDay"

definition YearFromTime :: "date \<Rightarrow> int" where
  "YearFromTime t = (case civil_from_days (Day t) of (y, m, d) \<Rightarrow> y)"

text \<open>Months are numbered from 0 (January) to 11.\<close>

definition MonthFromTime :: "date \<Rightarrow> int" where
  "MonthFromTime t = (case civil_from_days (Day t) of (y, m, d) \<Rightarrow> m - 1)"

definition DateFromTime :: "date \<Rightarrow> int" where
  "DateFromTime t = (case civil_from_days (Day t) of (y, m, d) \<Rightarrow> d)"

text \<open>
  \<^verbatim>\<open>MakeDay\<close>: the month may lie outside 0..11 (it carries into the year) and the
  date may exceed the month's length (it runs on into the following month).
\<close>

definition MakeDay :: "int \<Rightarrow> int \<Rightarrow> int \<Rightarrow> int" where
  "MakeDay year month dt =
     days_from_civil (year + month div 12) (month mod 12 + 1) 1 + dt - 1"

definition MakeDate :: "int \<Rightarrow> int \<Rightarrow> date" where
  "MakeDate day time = day * msPerDay + time"

definition getMonth :: "int \<Rightarrow> date \<Rightarrow> int" where
  "getMonth tza t = MonthFromTime (t + tza)"

definition setMonth :: "int \<Rightarrow> date \<Rightarrow> int \<Rightarrow> date" where
  "setMonth tza t month =
     (let lt = t + tza
      in MakeDate (MakeDay (YearFromTime lt) month (DateFromTime lt)) (TimeWithinDay lt) - tza)"

definition threeMonthsAgo :: "int \<Rightarrow> date \<Rightarrow> date" where
  "threeMonthsAgo tza now = setMonth tza now (getMonth tza now - 3)"

subsection \<open>The delete\<close>

text \<open>
  What the SQL client hands back for a statement: the rows the statement returned, as
  an array, and \<^verbatim>\<open>count\<close>, the number of rows it affected. A \<^verbatim>\<open>DELETE\<close>
  without \<^verbatim>\<open>RETURNING\<close> returns no rows, so the array is empty whatever was deleted.
\<close>

record sql_result =
  returned :: "roulette_events_row list"
  count :: nat

definition delete_roulette_events :: "db \<Rightarrow> date \<Rightarrow> sql_result \<times> db" where
  "delete_roulette_events s threshold =
     (\<lparr>returned = [],
       count = length (filter (\<lambda>r. created_at r < threshold) (roulette_events s))\<rparr>,
      (issue (DeleteRouletteEvents threshold) s)
        \<lparr>roulette_events := filter (\<lambda>r. \<not> created_at r < threshold) (roulette_events s)\<rparr>)"

text \<open>
  The body that the variants of \<^verbatim>\<open>cleanupOldRouletteEvents\<close> share. It computes the
  threshold and then evaluates the identifier \<^verbatim>\<open>sql\<close>: \<open>sql\<close> is what the function's
  scope binds the identifier to, \<open>None\<close> when no enclosing scope declares it. The
  evaluation of an undeclared identifier throws; the \<^verbatim>\<open>catch\<close> block evaluates
  \<^verbatim>\<open>sql\<close> again (to log the error) and throws the same way, so the error leaves the
  function and no statement is issued. \<open>reported\<close> is what the variant reads from the
  result of the delete.
\<close>

definition cleanup_body ::
  "(db \<Rightarrow> date \<Rightarrow> sql_result \<times> db) option \<Rightarrow> (sql_result \<Rightarrow> nat) \<Rightarrow>
     int \<Rightarrow> date \<Rightarrow> db \<Rightarrow> (error + nat) \<times> db" where
  "cleanup_body sql reported tza now s =
     (let threshold = threeMonthsAgo tza now
      in case sql of
           None \<Rightarrow> (Inl ReferenceError, s)
         | Some run \<Rightarrow>
             (case run s threshold of
                (deleteResult, s1) \<Rightarrow> (Inr (reported deleteResult), s1)))"

text \<open>
  \<^verbatim>\<open>scripts/cleanup-old-roulette-events.js\<close>: \<^verbatim>\<open>sql\<close> is a constant of
  \<^verbatim>\<open>main\<close>, not in the scope of \<^verbatim>\<open>cleanupOldRouletteEvents\<close>; the function would
  report \<^verbatim>\<open>deleteResult.length\<close>.
\<close>

definition cleanupOldRouletteEvents_js :: "int \<Rightarrow> date \<Rightarrow> db \<Rightarrow> (error + nat) \<times> db" where
  "cleanupOldRouletteEvents_js tza now s =
     cleanup_body None (\<lambda>deleteResult. length (returned deleteResult)) tza now s"

text \<open>
  The TypeScript copies of the script: \<^verbatim>\<open>sql\<close> is imported by the module; they report
  \<^verbatim>\<open>deleteResult.length\<close>.
\<close>

definition cleanupOldRouletteEvents_ts :: "int \<Rightarrow> date \<Rightarrow> db \<Rightarrow> (error + nat) \<times> db" where
  "cleanupOldRouletteEvents_ts tza now s =
     cleanup_body (Some delete_roulette_events)
       (\<lambda>deleteResult. length (returned deleteResult)) tza now s"

text \<open>
  The cleaner route: \<^verbatim>\<open>sql\<close> is imported by the module; it reports
  \<^verbatim>\<open>deleteResult.count\<close>.
\<close>

definition cleanupOldRouletteEvents_route :: "int \<Rightarrow> date \<Rightarrow> db \<Rightarrow> (error + nat) \<times> db" where
  "cleanupOldRouletteEvents_route tza now s =
     cleanup_body (Some delete_roulette_events) count tza now s"

section \<open>Concrete inputs\<close>

text \<open>
  An event of the feed with the given envelope id, inner id, start and settlement
  instants, status, table id and table name; the outcome is 35, odd, black.
\<close>

definition sample_event ::
  "string \<Rightarrow> string \<Rightarrow> date \<Rightarrow> date \<Rightarrow> string \<Rightarrow> string \<Rightarrow> string \<Rightarrow> RouletteEvent" where
  "sample_event envelope inner started settled st tableId tableName =
     \<lparr>id_event = envelope,
      data = \<lparr>id_data = inner, startedAt = started, settledAt = settled, status = st,
               gameType = ''megaroulette'',
               table_data = \<lparr>id_table = tableId, name_table = tableName\<rparr>,
               result_data = \<lparr>outcome = \<lparr>number_outcome = 35, type_outcome = ''Odd'',
                                         color_outcome = ''Black''\<rparr>,
                              luckyNumbersList = None\<rparr>\<rparr>\<rparr>"

text \<open>
  The limits of a PostgreSQL store behind the repository's client: an \<^verbatim>\<open>INTEGER\<close>
  column holds the whole numbers of 32 bits, a timestamp is sent in ISO format with a
  year of four digits (the years 1 to 9999), and one statement carries fewer than 65534
  parameters, seven to a row.
\<close>

definition pg_limits :: store_limits where
  "pg_limits =
     \<lparr>integer_input =
        (\<lambda>x. if of_int \<lfloor>x\<rfloor> = x \<and> - 2147483648 \<le> x \<and> x \<le> 2147483647
             then Some \<lfloor>x\<rfloor> else None),
      timestamp_input = (\<lambda>t. - 62135596800000 \<le> t \<and> t \<le> 253402300799999),
      max_rows = 9361\<rparr>"

definition empty_store :: db where
  "empty_store = \<lparr>casino = [], roulette_events = [], casino_id_seq = 1,
                   roulette_events_id_seq = 1, issued = []\<rparr>"

definition sample_casino :: "int \<Rightarrow> string \<Rightarrow> string \<Rightarrow> casino_row" where
  "sample_casino pk tableId tableName =
     \<lparr>casino_pk = pk, table_id = tableId, table_name = tableName, casino_created_at = 0\<rparr>"

text \<open>A stored fact with the given key, event id, settlement instant, casino and creation instant.\<close>

definition sample_fact :: "int \<Rightarrow> string \<Rightarrow> date \<Rightarrow> int \<Rightarrow> date \<Rightarrow> roulette_events_row" where
  "sample_fact pk eventId settled casinoId created =
     \<lparr>roulette_events_pk = pk, event_id = eventId, started_at = 0, settled_at = settled,
      outcome_number = 35, outcome_type = ''Odd'', outcome_color = ''Black'',
      casino_id = casinoId, created_at = created\<rparr>"

text \<open>Two tables, of which only the first has facts (settled at 50 and at 70).\<close>

definition two_table_store :: db where
  "two_table_store =
     \<lparr>casino = [sample_casino 1 ''204'' ''Mega Roulette'', sample_casino 2 ''305'' ''Speed''],
      roulette_events = [sample_fact 1 ''a'' 50 1 0, sample_fact 2 ''b'' 70 1 0],
      casino_id_seq = 3, roulette_events_id_seq = 3, issued = []\<rparr>"

definition two_table_batch :: "RouletteEvent list" where
  "two_table_batch =
     [sample_event ''e1'' ''c'' 0 80 ''Resolved'' ''204'' ''Mega Roulette'',
      sample_event ''e2'' ''d'' 0 10 ''Resolved'' ''305'' ''Speed'',
      sample_event ''e3'' ''b'' 0 70 ''Resolved'' ''204'' ''Mega Roulette'']"

text \<open>Two payload elements with different envelope ids and the same inner id.\<close>

definition twin_batch :: "RouletteEvent list" where
  "twin_batch =
     [sample_event ''envelope-1'' ''a'' 0 5 ''Resolved'' ''204'' ''Mega Roulette'',
      sample_event ''envelope-2'' ''a'' 0 5 ''Resolved'' ''204'' ''Mega Roulette'']"

text \<open>A batch with nothing new for \<open>two_table_store\<close>: one event at the watermark, one pending.\<close>

definition stale_batch :: "RouletteEvent list" where
  "stale_batch =
     [sample_event ''e1'' ''b'' 0 70 ''Resolved'' ''204'' ''Mega Roulette'',
      sample_event ''e2'' ''d'' 0 90 ''Pending'' ''305'' ''Speed'']"

text \<open>The value found in a parsed JSON value by following object keys.\<close>

fun path :: "json \<Rightarrow> string list \<Rightarrow> json option" where
  "path j [] = Some j"
| "path j (k # ks) = (case key j k of None \<Rightarrow> None | Some v \<Rightarrow> path v ks)"

text \<open>
  A date coercion for the examples: a number within the range of time values is the
  instant it truncates to, the two strings of the first event of the route's sample
  payload are the instants they denote, anything else is an invalid date.
\<close>

fun sample_coerce_date :: "json option \<Rightarrow> date option" where
  "sample_coerce_date (Some (JNumber n)) =
     (if \<bar>n\<bar> \<le> 8640000000000000 then Some (if 0 \<le> n then \<lfloor>n\<rfloor> else \<lceil>n\<rceil>)
      else None)"
| "sample_coerce_date (Some (JString s)) =
     (if s = ''2025-11-10T01:07:10Z'' then Some 1762736830000
      else if s = ''2025-11-10T01:07:50Z'' then Some 1762736870000
      else None)"
| "sample_coerce_date _ = None"

text \<open>The first event of the route's sample payload, with the given parity and colour.\<close>

definition sample_json_event :: "string \<Rightarrow> string \<Rightarrow> json" where
  "sample_json_event parity colour =
     JObject [(''id'', JString ''69113ae63b80475fd08b5c20''),
       (''data'', JObject [(''id'', JString ''6aa9bf20e0d68e7558b3c517''),
          (''startedAt'', JString ''2025-11-10T01:07:10Z''),
          (''settledAt'', JString ''2025-11-10T01:07:50Z''),
          (''status'', JString ''Resolved''),
          (''gameType'', JString ''megaroulette''),
          (''table'', JObject [(''id'', JString ''204''), (''name'', JString ''Mega Roulette'')]),
          (''result'', JObject
             [(''outcome'', JObject [(''number'', JNumber 35), (''type'', JString parity),
                                     (''color'', JString colour)]),
              (''luckyNumbersList'',
                 JArray [JObject [(''number'', JNumber 0), (''roundedMultiplier'', JNumber 100)],
                         JObject [(''number'', JNumber 3), (''roundedMultiplier'', JNumber 150)]])])])]"

text \<open>
  A fact created on 2025-07-10 and one created on 2025-10-10 (both at 02:00 UTC), for a
  clean-up that runs on 2025-11-10 at 02:00 UTC: four months and one month old.
\<close>

definition retention_store :: db where
  "retention_store =
     \<lparr>casino = [sample_casino 1 ''204'' ''Mega Roulette''],
      roulette_events = [sample_fact 1 ''a'' 50 1 1752112800000,
                         sample_fact 2 ''b'' 70 1 1760061600000],
      casino_id_seq = 2, roulette_events_id_seq = 3, issued = []\<rparr>"

definition retention_now :: date where
  "retention_now = 1762740000000"

text \<open>
  Another run on the same store whose insert of the casino \<^verbatim>\<open>204\<close> takes effect
  between this run's \<^verbatim>\<open>SELECT\<close> and its \<^verbatim>\<open>INSERT\<close>.
\<close>

definition other_run_creates :: "db \<Rightarrow> db" where
  "other_run_creates s =
     s\<lparr>casino := casino s @ [sample_casino (casino_id_seq s) ''204'' ''Mega Roulette''],
       casino_id_seq := casino_id_seq s + 1\<rparr>"

text \<open>A store that knows the table \<^verbatim>\<open>204\<close>, and a batch that carries it under a new name.\<close>

definition one_table_store :: db where
  "one_table_store =
     \<lparr>casino = [sample_casino 1 ''204'' ''Mega Roulette''], roulette_events = [],
      casino_id_seq = 2, roulette_events_id_seq = 1, issued = []\<rparr>"

definition renamed_batch :: "RouletteEvent list" where
  "renamed_batch =
     [sample_event ''e1'' ''a'' 0 5 ''Resolved'' ''204'' ''Mega Roulette Live'']"

text \<open>One table id under two display names in one batch, and a later batch for the same table.\<close>

definition two_names_batch :: "RouletteEvent list" where
  "two_names_batch =
     [sample_event ''e1'' ''a'' 0 5 ''Resolved'' ''204'' ''Mega Roulette'',
      sample_event ''e2'' ''b'' 0 7 ''Resolved'' ''204'' ''Mega Roulette Live'']"

definition later_batch :: "RouletteEvent list" where
  "later_batch =
     [sample_event ''e3'' ''c'' 0 9 ''Resolved'' ''204'' ''Mega Roulette'']"

text \<open>
  Two payload elements with one inner id, settled at different instants, that carry the
  table \<^verbatim>\<open>204\<close> under two display names.
\<close>

definition renamed_twin_batch :: "RouletteEvent list" where
  "renamed_twin_batch =
     [sample_event ''e1'' ''b'' 0 5 ''Resolved'' ''204'' ''Mega Roulette'',
      sample_event ''e2'' ''b'' 0 7 ''Resolved'' ''204'' ''Mega Roulette Live'']"

text \<open>Two payload elements with one inner id and one table, settled at different instants.\<close>

definition twin_late_batch :: "RouletteEvent list" where
  "twin_late_batch =
     [sample_event ''e1'' ''b'' 0 5 ''Resolved'' ''204'' ''Mega Roulette'',
      sample_event ''e2'' ''b'' 0 7 ''Resolved'' ''204'' ''Mega Roulette'']"

text \<open>An event of the feed with the given outcome number.\<close>

definition numbered_event :: "rat \<Rightarrow> RouletteEvent" where
  "numbered_event x =
     \<lparr>id_event = ''e1'',
      data = \<lparr>id_data = ''a'', startedAt = 0, settledAt = 5, status = ''Resolved'',
               gameType = ''megaroulette'',
               table_data = \<lparr>id_table = ''204'', name_table = ''Mega Roulette''\<rparr>,
               result_data = \<lparr>outcome = \<lparr>number_outcome = x, type_outcome = ''Even'',
                                         color_outcome = ''Black''\<rparr>,
                              luckyNumbersList = None\<rparr>\<rparr>\<rparr>"

text \<open>An outcome number that is one more than the greatest an \<^verbatim>\<open>INTEGER\<close> column holds.\<close>

definition oversized_batch :: "RouletteEvent list" where
  "oversized_batch = [numbered_event 2147483648]"

text \<open>A batch for the table \<^verbatim>\<open>204\<close> under its stored name.\<close>

definition plain_batch :: "RouletteEvent list" where
  "plain_batch = [sample_event ''e1'' ''a'' 0 5 ''Resolved'' ''204'' ''Mega Roulette'']"

section \<open>The filter stage\<close>

text \<open>
  Claim C1. For every validated batch and every watermark mapping, an event is in the
  to-ingest set exactly when it is in the batch, its status is the string
  \<^verbatim>\<open>Resolved\<close>, and the mapping either has no entry for the event's table id or
  holds an instant strictly before the event's settlement instant. The filter is a
  total function: an event failing a condition is left out, nothing is raised.
\<close>

theorem resolvedEvents_iff:
  "event \<in> set (resolvedEvents m validatedFields) \<longleftrightarrow>
     event \<in> set validatedFields \<and>
     status (data event) = ''Resolved'' \<and>
     (m (id_table (table_data (data event))) = None \<or>
      (\<exists>w. m (id_table (table_data (data event))) = Some w \<and> w < settledAt (data event)))"
  by (auto simp: resolvedEvents_def admitted_def split: option.splits)

theorem resolvedEvents_iff_witness:
  "sample_event ''e1'' ''a'' 0 50 ''Resolved'' ''204'' ''Mega Roulette''
     \<in> set (resolvedEvents [''204'' \<mapsto> 40]
              [sample_event ''e1'' ''a'' 0 50 ''Resolved'' ''204'' ''Mega Roulette'',
               sample_event ''e2'' ''b'' 0 40 ''Resolved'' ''204'' ''Mega Roulette'',
               sample_event ''e3'' ''c'' 0 60 ''resolved'' ''204'' ''Mega Roulette''])
   \<and> sample_event ''e2'' ''b'' 0 40 ''Resolved'' ''204'' ''Mega Roulette''
     \<notin> set (resolvedEvents [''204'' \<mapsto> 40]
              [sample_event ''e1'' ''a'' 0 50 ''Resolved'' ''204'' ''Mega Roulette'',
               sample_event ''e2'' ''b'' 0 40 ''Resolved'' ''204'' ''Mega Roulette'',
               sample_event ''e3'' ''c'' 0 60 ''resolved'' ''204'' ''Mega Roulette''])
   \<and> sample_event ''e3'' ''c'' 0 60 ''resolved'' ''204'' ''Mega Roulette''
     \<notin> set (resolvedEvents [''204'' \<mapsto> 40]
              [sample_event ''e1'' ''a'' 0 50 ''Resolved'' ''204'' ''Mega Roulette'',
               sample_event ''e2'' ''b'' 0 40 ''Resolved'' ''204'' ''Mega Roulette'',
               sample_event ''e3'' ''c'' 0 60 ''resolved'' ''204'' ''Mega Roulette''])"
  using
    resolvedEvents_iff [of "sample_event ''e1'' ''a'' 0 50 ''Resolved'' ''204'' ''Mega Roulette''"
      "[''204'' \<mapsto> 40]"
      "[sample_event ''e1'' ''a'' 0 50 ''Resolved'' ''204'' ''Mega Roulette'',
        sample_event ''e2'' ''b'' 0 40 ''Resolved'' ''204'' ''Mega Roulette'',
        sample_event ''e3'' ''c'' 0 60 ''resolved'' ''204'' ''Mega Roulette'']"]
    resolvedEvents_iff [of "sample_event ''e2'' ''b'' 0 40 ''Resolved'' ''204'' ''Mega Roulette''"
      "[''204'' \<mapsto> 40]"
      "[sample_event ''e1'' ''a'' 0 50 ''Resolved'' ''204'' ''Mega Roulette'',
        sample_event ''e2'' ''b'' 0 40 ''Resolved'' ''204'' ''Mega Roulette'',
        sample_event ''e3'' ''c'' 0 60 ''resolved'' ''204'' ''Mega Roulette'']"]
    resolvedEvents_iff [of "sample_event ''e3'' ''c'' 0 60 ''resolved'' ''204'' ''Mega Roulette''"
      "[''204'' \<mapsto> 40]"
      "[sample_event ''e1'' ''a'' 0 50 ''Resolved'' ''204'' ''Mega Roulette'',
        sample_event ''e2'' ''b'' 0 40 ''Resolved'' ''204'' ''Mega Roulette'',
        sample_event ''e3'' ''c'' 0 60 ''resolved'' ''204'' ''Mega Roulette'']"]
  by (simp add: sample_event_def)

section \<open>The watermark resolver\<close>

lemma latest_settled_at_issue [simp]: "latest_settled_at (issue q s) t = latest_settled_at s t"
  by (simp add: latest_settled_at_def issue_def)

lemma casinoQueries_eq:
  "casinoQueries s ts =
     (map (\<lambda>t. (t, latest_settled_at s t)) ts,
      s\<lparr>issued := issued s @ map SelectLatestSettled ts\<rparr>)"
proof (induction ts arbitrary: s)
  case Nil
  show ?case by simp
next
  case (Cons t ts)
  show ?case
    by (simp add: Cons casinoQuery_def) (simp add: issue_def)
qed

lemma set_foldl_Set_add:
  "set (foldl (\<lambda>S e. Set_add S (f e)) S0 es) = set S0 \<union> f ` set es"
  by (induction es arbitrary: S0) (auto simp: Set_add_def)

lemma distinct_foldl_Set_add:
  "distinct S0 \<Longrightarrow> distinct (foldl (\<lambda>S e. Set_add S (f e)) S0 es)"
  by (induction es arbitrary: S0) (auto simp: Set_add_def)

lemma set_uniqueTableIds:
  "set (uniqueTableIds vs) = (\<lambda>e. id_table (table_data (data e))) ` set vs"
  by (simp add: uniqueTableIds_def set_foldl_Set_add)

lemma distinct_uniqueTableIds: "distinct (uniqueTableIds vs)"
  by (simp add: uniqueTableIds_def distinct_foldl_Set_add)

lemma foldl_latest_map:
  "foldl (\<lambda>m (tableId, latestSettledAt).
            case latestSettledAt of None \<Rightarrow> m | Some d \<Rightarrow> m(tableId \<mapsto> d))
     m0 (map (\<lambda>t. (t, f t)) ts) k =
   (if k \<in> set ts then (case f k of None \<Rightarrow> m0 k | Some d \<Rightarrow> Some d) else m0 k)"
  by (induction ts arbitrary: m0) (auto split: option.splits)

lemma casinoLatestSettledMap_queries:
  "casinoLatestSettledMap (map (\<lambda>t. (t, f t)) ts) k = (if k \<in> set ts then f k else None)"
  by (simp add: casinoLatestSettledMap_def foldl_latest_map split: option.splits)

lemma set_joined:
  "set [settled_at re. re \<leftarrow> roulette_events s, c \<leftarrow> casino s,
          casino_id re = casino_pk c, table_id c = k] =
   {settled_at re |re c. re \<in> set (roulette_events s) \<and> c \<in> set (casino s) \<and>
      casino_id re = casino_pk c \<and> table_id c = k}"
  by auto

lemma latest_settled_at_Max:
  "latest_settled_at s k =
     (let F = {settled_at re |re c. re \<in> set (roulette_events s) \<and> c \<in> set (casino s) \<and>
                 casino_id re = casino_pk c \<and> table_id c = k}
      in if F = {} then None else Some (Max F))"
proof -
  let ?J = "[settled_at re. re \<leftarrow> roulette_events s, c \<leftarrow> casino s,
          casino_id re = casino_pk c, table_id c = k]"
  have "latest_settled_at s k = (case ?J of [] \<Rightarrow> None | x # xs \<Rightarrow> Some (fold max xs x))"
    by (simp add: latest_settled_at_def)
  also have "\<dots> = (if set ?J = {} then None else Some (Max (set ?J)))"
    by (cases ?J)
      (simp_all only: list.case Max.set_eq_fold set_empty list.distinct if_True if_False refl)
  finally show ?thesis
    unfolding set_joined Let_def .
qed

text \<open>
  Claim C2. For every validated batch, the resolver sends one
  \<^verbatim>\<open>SELECT MAX(settled_at)\<close> per distinct table id of the batch (the ids are listed
  once each) and changes no table. The mapping it builds sends a table id \<open>k\<close> to the
  greatest settlement instant among the stored facts whose casino row carries the table
  id \<open>k\<close>; a table id outside the batch, or one with no such fact, has no entry.
\<close>

theorem watermark_resolver:
  assumes "casinoQueries s (uniqueTableIds validatedFields) = (latestSettledResults, s1)"
  shows "distinct (uniqueTableIds validatedFields)
    \<and> set (uniqueTableIds validatedFields) =
        (\<lambda>e. id_table (table_data (data e))) ` set validatedFields
    \<and> issued s1 = issued s @ map SelectLatestSettled (uniqueTableIds validatedFields)
    \<and> casino s1 = casino s \<and> roulette_events s1 = roulette_events s
    \<and> casinoLatestSettledMap latestSettledResults k =
        (let F = {settled_at re |re c. re \<in> set (roulette_events s) \<and> c \<in> set (casino s) \<and>
                    casino_id re = casino_pk c \<and> table_id c = k}
         in if k \<in> (\<lambda>e. id_table (table_data (data e))) ` set validatedFields \<and> F \<noteq> {}
            then Some (Max F) else None)"
proof -
  from assms have rs: "latestSettledResults =
      map (\<lambda>t. (t, latest_settled_at s t)) (uniqueTableIds validatedFields)"
    and s1: "s1 = s\<lparr>issued := issued s @ map SelectLatestSettled (uniqueTableIds validatedFields)\<rparr>"
    by (simp_all add: casinoQueries_eq)
  have "casinoLatestSettledMap latestSettledResults k =
      (if k \<in> set (uniqueTableIds validatedFields) then latest_settled_at s k else None)"
    unfolding rs by (rule casinoLatestSettledMap_queries)
  then show ?thesis
    by (simp add: s1 distinct_uniqueTableIds set_uniqueTableIds latest_settled_at_Max Let_def)
qed

lemma uniqueTableIds_two_table_batch: "uniqueTableIds two_table_batch = [''204'', ''305'']"
  by (simp add: uniqueTableIds_def two_table_batch_def sample_event_def Set_add_def)

lemma latest_settled_at_two_table_store:
  "latest_settled_at two_table_store ''204'' = Some 70"
  "latest_settled_at two_table_store ''305'' = None"
  by (simp_all add: latest_settled_at_def two_table_store_def sample_fact_def sample_casino_def)

theorem watermark_resolver_witness:
  "casinoQueries two_table_store (uniqueTableIds two_table_batch) =
     ([(''204'', Some 70), (''305'', None)],
      two_table_store\<lparr>issued := [SelectLatestSettled ''204'', SelectLatestSettled ''305'']\<rparr>)
   \<and> casinoLatestSettledMap [(''204'', Some 70), (''305'', None)] ''204'' = Some 70
   \<and> casinoLatestSettledMap [(''204'', Some 70), (''305'', None)] ''305'' = None"
proof -
  have h: "casinoQueries two_table_store (uniqueTableIds two_table_batch) =
     ([(''204'', Some 70), (''305'', None)],
      two_table_store\<lparr>issued := [SelectLatestSettled ''204'', SelectLatestSettled ''305'']\<rparr>)"
    by (simp add: casinoQueries_eq uniqueTableIds_two_table_batch
        latest_settled_at_two_table_store)
      (simp add: two_table_store_def)
  have m: "casinoLatestSettledMap [(''204'', Some 70), (''305'', None)] ''204'' = Some 70"
    "casinoLatestSettledMap [(''204'', Some 70), (''305'', None)] ''305'' = None"
    by (simp_all add: casinoLatestSettledMap_def)
  from h m watermark_resolver [OF h, of "''204''"] show ?thesis
    by simp
qed

section \<open>Lemmas about the pipeline steps\<close>

subsection \<open>The dimension resolver\<close>

lemma casino_issue [simp]: "casino (issue q s) = casino s"
  and roulette_events_issue [simp]: "roulette_events (issue q s) = roulette_events s"
  and casino_id_seq_issue [simp]: "casino_id_seq (issue q s) = casino_id_seq s"
  and roulette_events_id_seq_issue [simp]: "roulette_events_id_seq (issue q s) = roulette_events_id_seq s"
  and issued_issue [simp]: "issued (issue q s) = issued s @ [q]"
  by (simp_all add: issue_def)

lemma select_casino_issue [simp]: "select_casino (issue q s) t n = select_casino s t n"
  by (simp add: select_casino_def)

lemma select_casino_issued_update [simp]:
  "select_casino (s\<lparr>issued := qs\<rparr>) t n = select_casino s t n"
  by (simp add: select_casino_def)

lemma select_casino_same:
  "casino s' = casino s \<Longrightarrow> select_casino s' t n = select_casino s t n"
  by (simp add: select_casino_def)

lemma select_casino_append:
  "casino s' = casino s @ new \<Longrightarrow>
   select_casino s' t n = select_casino s t n @
     [casino_pk c. c \<leftarrow> new, table_id c = t \<and> table_name c = n]"
  by (simp add: select_casino_def)

lemma select_casino_unknown:
  "t \<notin> table_id ` set (casino s) \<Longrightarrow> select_casino s t n = []"
  by (induction "casino s" arbitrary: s) (auto simp: select_casino_def)

text \<open>The insert of a casino, by its outcome.\<close>

lemma insert_casino_rejected:
  assumes "t \<in> table_id ` set (casino s)"
  shows "insert_casino now s t n =
     (Inl StorageError, (issue (InsertCasino t n) s)\<lparr>casino_id_seq := casino_id_seq s + 1\<rparr>)"
  using assms by (simp add: insert_casino_def Let_def)

lemma insert_casino_accepted:
  assumes "t \<notin> table_id ` set (casino s)"
  shows "insert_casino now s t n =
     (Inr (casino_id_seq s),
      (issue (InsertCasino t n) s)
        \<lparr>casino_id_seq := casino_id_seq s + 1,
         casino := casino s @ [\<lparr>casino_pk = casino_id_seq s, table_id = t, table_name = n,
                                casino_created_at = now\<rparr>]\<rparr>)"
  using assms by (simp add: insert_casino_def Let_def)

lemma insert_casino_step:
  assumes "insert_casino now s t n = (r, s1)"
  shows "roulette_events s1 = roulette_events s"
    and "issued s1 = issued s @ [InsertCasino t n]"
    and "t \<in> table_id ` set (casino s) \<Longrightarrow> r = Inl StorageError \<and> casino s1 = casino s"
    and "t \<notin> table_id ` set (casino s) \<Longrightarrow>
           r = Inr (casino_id_seq s) \<and>
           casino s1 = casino s @ [\<lparr>casino_pk = casino_id_seq s, table_id = t, table_name = n,
                                     casino_created_at = now\<rparr>]"
proof -
  show "roulette_events s1 = roulette_events s" and "issued s1 = issued s @ [InsertCasino t n]"
    using assms by (cases "t \<in> table_id ` set (casino s)";
        simp add: insert_casino_rejected insert_casino_accepted; fastforce)+
  show "t \<in> table_id ` set (casino s) \<Longrightarrow> r = Inl StorageError \<and> casino s1 = casino s"
    using assms by (auto simp: insert_casino_rejected)
  show "t \<notin> table_id ` set (casino s) \<Longrightarrow>
           r = Inr (casino_id_seq s) \<and>
           casino s1 = casino s @ [\<lparr>casino_pk = casino_id_seq s, table_id = t, table_name = n,
                                     casino_created_at = now\<rparr>]"
    using assms by (auto simp: insert_casino_accepted)
qed

text \<open>\<^verbatim>\<open>Promise.all\<close>.\<close>

lemma Promise_all_map_Inr: "Promise_all (map Inr xs) = Inr xs"
  by (induction xs) simp_all

lemma Promise_all_InrD: "Promise_all outcomes = Inr xs \<Longrightarrow> outcomes = map Inr xs"
proof (induction outcomes arbitrary: xs)
  case Nil
  then show ?case by simp
next
  case (Cons a outcomes)
  show ?case
  proof (cases a)
    case (Inl e)
    with Cons.prems show ?thesis by simp
  next
    case (Inr x)
    with Cons.prems obtain zs where zs: "Promise_all outcomes = Inr zs" and xs: "xs = x # zs"
      by (cases "Promise_all outcomes") auto
    from Cons.IH [OF zs] Inr xs show ?thesis by simp
  qed
qed

lemma Promise_all_Inr: "Promise_all outcomes = Inr xs \<longleftrightarrow> outcomes = map Inr xs"
  using Promise_all_InrD [of outcomes xs] Promise_all_map_Inr [of xs] by auto

lemma Promise_all_Inl: "Promise_all outcomes = Inl e \<Longrightarrow> Inl e \<in> set outcomes"
proof (induction outcomes)
  case Nil
  then show ?case by simp
next
  case (Cons a outcomes)
  then show ?case
    by (cases a) (auto split: sum.splits)
qed

lemma Promise_all_rejects: "Inl e \<in> set outcomes \<Longrightarrow> \<exists>e'. Promise_all outcomes = Inl e'"
proof (induction outcomes)
  case Nil
  then show ?case by simp
next
  case (Cons a outcomes)
  then show ?case
    by (cases a) (auto split: sum.splits)
qed

text \<open>One step of the inserts.\<close>

lemma casinoInserts_found:
  "casinoInserts now s (((t, n), found # ys) # rest) =
     (Inr (t, found) # fst (casinoInserts now s rest), snd (casinoInserts now s rest))"
  by (simp split: prod.splits)

lemma casinoInserts_absent:
  "casinoInserts now s (((t, n), []) # rest) =
     (map_sum (\<lambda>e. e) (\<lambda>new_id. (t, new_id)) (fst (insert_casino now s t n)) #
        fst (casinoInserts now (snd (insert_casino now s t n)) rest),
      snd (casinoInserts now (snd (insert_casino now s t n)) rest))"
  by (simp split: prod.splits sum.splits)

lemma casinoInserts_frame:
  "roulette_events (snd (casinoInserts now s looked)) = roulette_events s \<and>
   (\<exists>new. casino (snd (casinoInserts now s looked)) = casino s @ new) \<and>
   length (fst (casinoInserts now s looked)) = length looked \<and>
   (\<forall>e. Inl e \<in> set (fst (casinoInserts now s looked)) \<longrightarrow> e = StorageError) \<and>
   (\<exists>qs. issued (snd (casinoInserts now s looked)) = issued s @ qs \<and>
         list_all (\<lambda>q. \<exists>t n. q = InsertCasino t n) qs)"
proof (induction looked arbitrary: s)
  case Nil
  show ?case by simp
next
  case (Cons entry rest)
  obtain t n r where entry: "entry = ((t, n), r)" by (cases entry) auto
  show ?case
  proof (cases r)
    case (Cons found ys)
    with Cons.IH [of s] show ?thesis
      unfolding entry Cons casinoInserts_found by simp
  next
    case Nil
    obtain r1 s1 where ins: "insert_casino now s t n = (r1, s1)"
      by (cases "insert_casino now s t n")
    note st = insert_casino_step [OF ins]
    have c1: "\<exists>new. casino s1 = casino s @ new"
      using st(3,4) by (cases "t \<in> table_id ` set (casino s)") auto
    have e1: "r1 = Inl e \<Longrightarrow> e = StorageError" for e
      using st(3,4) by (cases "t \<in> table_id ` set (casino s)") auto
    from Cons.IH [of s1] obtain new qs where
      ih: "roulette_events (snd (casinoInserts now s1 rest)) = roulette_events s1"
        "casino (snd (casinoInserts now s1 rest)) = casino s1 @ new"
        "length (fst (casinoInserts now s1 rest)) = length rest"
        "\<forall>e. Inl e \<in> set (fst (casinoInserts now s1 rest)) \<longrightarrow> e = StorageError"
        "issued (snd (casinoInserts now s1 rest)) = issued s1 @ qs"
        "list_all (\<lambda>q. \<exists>t n. q = InsertCasino t n) qs"
      by blast
    from c1 obtain new1 where new1: "casino s1 = casino s @ new1" by blast
    have "issued (snd (casinoInserts now s1 rest)) = issued s @ (InsertCasino t n # qs) \<and>
        list_all (\<lambda>q. \<exists>t n. q = InsertCasino t n) (InsertCasino t n # qs)"
      using ih(5,6) st(2) by simp
    then have iss: "\<exists>qs. issued (snd (casinoInserts now s1 rest)) = issued s @ qs \<and>
        list_all (\<lambda>q. \<exists>t n. q = InsertCasino t n) qs" by blast
    have cas: "\<exists>new. casino (snd (casinoInserts now s1 rest)) = casino s @ new"
      using ih(2) new1 by simp
    have errs: "\<forall>e. Inl e \<in> set (map_sum (\<lambda>e. e) (\<lambda>new_id. (t, new_id)) r1 #
        fst (casinoInserts now s1 rest)) \<longrightarrow> e = StorageError"
      using ih(4) e1 by (cases r1) auto
    show ?thesis
      unfolding entry Nil casinoInserts_absent ins fst_conv snd_conv
      using ih(1,3) st(1) iss cas errs by simp
  qed
qed

lemma casinoInserts_distinct:
  "distinct (map table_id (casino s)) \<Longrightarrow>
   distinct (map table_id (casino (snd (casinoInserts now s looked))))"
proof (induction looked arbitrary: s)
  case Nil
  then show ?case by simp
next
  case (Cons entry rest)
  obtain t n r where entry: "entry = ((t, n), r)" by (cases entry) auto
  show ?case
  proof (cases r)
    case (Cons found ys)
    with Cons.IH [of s] Cons.prems show ?thesis
      unfolding entry Cons casinoInserts_found by simp
  next
    case Nil
    obtain r1 s1 where ins: "insert_casino now s t n = (r1, s1)"
      by (cases "insert_casino now s t n")
    note st = insert_casino_step [OF ins]
    have "distinct (map table_id (casino s1))"
      using st(3,4) Cons.prems by (cases "t \<in> table_id ` set (casino s)") auto
    from Cons.IH [OF this] show ?thesis
      unfolding entry Nil casinoInserts_absent ins fst_conv snd_conv by simp
  qed
qed

text \<open>An entry whose lookup found nothing, in a store that has its table id.\<close>

lemma casinoInserts_conflict:
  assumes "((t, n), []) \<in> set looked" and "t \<in> table_id ` set (casino s)"
  shows "Inl StorageError \<in> set (fst (casinoInserts now s looked))"
  using assms
proof (induction looked arbitrary: s)
  case Nil
  then show ?case by simp
next
  case (Cons entry rest)
  obtain t' n' r where entry: "entry = ((t', n'), r)" by (cases entry) auto
  show ?case
  proof (cases r)
    case (Cons found ys)
    with Cons.prems entry have "((t, n), []) \<in> set rest" by auto
    from Cons.IH [OF this Cons.prems(2)] show ?thesis
      unfolding entry Cons casinoInserts_found by simp
  next
    case Nil
    obtain r1 s1 where ins: "insert_casino now s t' n' = (r1, s1)"
      by (cases "insert_casino now s t' n'")
    note st = insert_casino_step [OF ins]
    show ?thesis
    proof (cases "t' = t")
      case True
      with st(3) Cons.prems(2) have "r1 = Inl StorageError" by simp
      then show ?thesis
        unfolding entry Nil casinoInserts_absent ins fst_conv snd_conv by simp
    next
      case False
      with Cons.prems(1) entry have mem: "((t, n), []) \<in> set rest" by auto
      have "t \<in> table_id ` set (casino s1)"
        using st(3,4) Cons.prems(2) by (cases "t' \<in> table_id ` set (casino s)") auto
      from Cons.IH [OF mem this] show ?thesis
        unfolding entry Nil casinoInserts_absent ins fst_conv snd_conv by simp
    qed
  qed
qed

text \<open>
  When every entry has a value, the value of an entry is the first id the final store
  gives for its pair. The answer recorded for an entry is the beginning of what the
  store holding it gives for the pair, since casino rows are only appended.
\<close>

lemma casinoInserts_results:
  assumes "fst (casinoInserts now s looked) = map Inr rs"
    and "\<forall>entry\<in>set looked. snd entry \<noteq> [] \<longrightarrow>
           (\<exists>ys. select_casino s (fst (fst entry)) (snd (fst entry)) = snd entry @ ys)"
  shows "rs = map (\<lambda>entry. (fst (fst entry),
                hd (select_casino (snd (casinoInserts now s looked))
                      (fst (fst entry)) (snd (fst entry))))) looked \<and>
         (\<forall>entry\<in>set looked.
            select_casino (snd (casinoInserts now s looked))
              (fst (fst entry)) (snd (fst entry)) \<noteq> [])"
  using assms
proof (induction looked arbitrary: s rs)
  case Nil
  then show ?case by simp
next
  case (Cons entry rest)
  obtain t n r where entry: "entry = ((t, n), r)" by (cases entry) auto
  show ?case
  proof (cases r)
    case (Cons found ys)
    let ?s2 = "snd (casinoInserts now s rest)"
    from Cons.prems(1) obtain xs where
      rs: "rs = (t, found) # xs" and xs: "fst (casinoInserts now s rest) = map Inr xs"
      unfolding entry Cons casinoInserts_found by (cases rs) auto
    from Cons.prems(2) have inv: "\<forall>entry\<in>set rest. snd entry \<noteq> [] \<longrightarrow>
           (\<exists>ys. select_casino s (fst (fst entry)) (snd (fst entry)) = snd entry @ ys)"
      by simp
    note ih = Cons.IH [OF xs inv]
    from Cons.prems(2) obtain m where m: "select_casino s t n = (found # ys) @ m"
      unfolding entry Cons by auto
    from casinoInserts_frame [of now s rest] obtain new where "casino ?s2 = casino s @ new"
      by blast
    from select_casino_append [OF this, of t n] m
    have "\<exists>m'. select_casino ?s2 t n = found # m'" by simp
    with ih show ?thesis
      unfolding entry Cons casinoInserts_found rs by auto
  next
    case Nil
    obtain r1 s1 where ins: "insert_casino now s t n = (r1, s1)"
      by (cases "insert_casino now s t n")
    note st = insert_casino_step [OF ins]
    let ?s2 = "snd (casinoInserts now s1 rest)"
    from Cons.prems(1) obtain x xs where
      rs: "rs = x # xs" and r1: "map_sum (\<lambda>e. e) (\<lambda>new_id. (t, new_id)) r1 = Inr x"
      and xs: "fst (casinoInserts now s1 rest) = map Inr xs"
      unfolding entry Nil casinoInserts_absent ins fst_conv snd_conv by (cases rs) auto
    from r1 obtain new_id where new_id: "r1 = Inr new_id" "x = (t, new_id)"
      by (cases r1) auto
    have fresh: "t \<notin> table_id ` set (casino s)"
    proof
      assume "t \<in> table_id ` set (casino s)"
      with st(3) new_id show False by simp
    qed
    from st(4) [OF fresh] new_id have
      c1: "casino s1 = casino s @ [\<lparr>casino_pk = new_id, table_id = t, table_name = n,
                                     casino_created_at = now\<rparr>]"
      by simp
    from select_casino_append [OF c1] have
      app: "select_casino s1 t' n' = select_casino s t' n' @
        [casino_pk c. c \<leftarrow> [\<lparr>casino_pk = new_id, table_id = t, table_name = n,
                                     casino_created_at = now\<rparr>], table_id c = t' \<and> table_name c = n']"
      for t' n' .
    have inv: "\<forall>entry\<in>set rest. snd entry \<noteq> [] \<longrightarrow>
           (\<exists>ys. select_casino s1 (fst (fst entry)) (snd (fst entry)) = snd entry @ ys)"
    proof (intro ballI impI)
      fix e assume e: "e \<in> set rest" "snd e \<noteq> []"
      with Cons.prems(2) obtain m where
        "select_casino s (fst (fst e)) (snd (fst e)) = snd e @ m" by auto
      with app [of "fst (fst e)" "snd (fst e)"]
      show "\<exists>ys. select_casino s1 (fst (fst e)) (snd (fst e)) = snd e @ ys" by simp
    qed
    note ih = Cons.IH [OF xs inv]
    from app [of t n] select_casino_unknown [OF fresh, of n]
    have sel1: "select_casino s1 t n = [new_id]" by simp
    from casinoInserts_frame [of now s1 rest] obtain new where "casino ?s2 = casino s1 @ new"
      by blast
    from select_casino_append [OF this, of t n] sel1
    have "\<exists>m'. select_casino ?s2 t n = new_id # m'" by simp
    with ih new_id show ?thesis
      unfolding entry Nil casinoInserts_absent ins fst_conv snd_conv rs by auto
  qed
qed

lemma casinoInserts_all_found:
  assumes "\<forall>entry\<in>set looked. snd entry \<noteq> []"
  shows "casinoInserts now s looked =
     (map (\<lambda>entry. Inr (fst (fst entry), hd (snd entry))) looked, s)"
  using assms
proof (induction looked)
  case Nil
  show ?case by simp
next
  case (Cons entry rest)
  obtain t n r where entry: "entry = ((t, n), r)" by (cases entry) auto
  from Cons.prems entry obtain found ys where r: "r = found # ys" by (cases r) auto
  from Cons.prems have "\<forall>entry\<in>set rest. snd entry \<noteq> []" by simp
  from Cons.IH [OF this] show ?case
    unfolding entry r casinoInserts_found by simp
qed
text \<open>The resolver as a whole.\<close>

lemma casinoPromises_between_eq:
  "casinoPromises_between others now s ps =
     (Promise_all (fst (casinoInserts now
         (others (s\<lparr>issued := issued s @ map (\<lambda>(t, n). SelectCasino t n) ps\<rparr>))
         (map (\<lambda>(t, n). ((t, n), select_casino s t n)) ps))),
      snd (casinoInserts now
         (others (s\<lparr>issued := issued s @ map (\<lambda>(t, n). SelectCasino t n) ps\<rparr>))
         (map (\<lambda>(t, n). ((t, n), select_casino s t n)) ps)))"
  by (simp add: casinoPromises_between_def casinoLookups_def split: prod.splits)

lemma casinoPromises_eq:
  "casinoPromises now s ps =
     (Promise_all (fst (casinoInserts now
         (s\<lparr>issued := issued s @ map (\<lambda>(t, n). SelectCasino t n) ps\<rparr>)
         (map (\<lambda>(t, n). ((t, n), select_casino s t n)) ps))),
      snd (casinoInserts now
         (s\<lparr>issued := issued s @ map (\<lambda>(t, n). SelectCasino t n) ps\<rparr>)
         (map (\<lambda>(t, n). ((t, n), select_casino s t n)) ps)))"
  by (simp add: casinoPromises_def casinoPromises_between_eq)

lemma casinoPromises_frame:
  assumes "casinoPromises now s ps = (r, s')"
  shows "roulette_events s' = roulette_events s \<and> (\<exists>new. casino s' = casino s @ new)"
  using assms
    casinoInserts_frame [of now "s\<lparr>issued := issued s @ map (\<lambda>(t, n). SelectCasino t n) ps\<rparr>"
      "map (\<lambda>(t, n). ((t, n), select_casino s t n)) ps"]
  by (simp add: casinoPromises_eq)

lemma casinoPromises_distinct:
  assumes "casinoPromises now s ps = (r, s')" "distinct (map table_id (casino s))"
  shows "distinct (map table_id (casino s'))"
  using assms
    casinoInserts_distinct [of "s\<lparr>issued := issued s @ map (\<lambda>(t, n). SelectCasino t n) ps\<rparr>"
      now "map (\<lambda>(t, n). ((t, n), select_casino s t n)) ps"]
  by (simp add: casinoPromises_eq)

lemma casinoPromises_error:
  assumes "casinoPromises now s ps = (Inl e, s')"
  shows "e = StorageError"
proof -
  let ?s1 = "s\<lparr>issued := issued s @ map (\<lambda>(t, n). SelectCasino t n) ps\<rparr>"
  let ?looked = "map (\<lambda>(t, n). ((t, n), select_casino s t n)) ps"
  from assms have "Promise_all (fst (casinoInserts now ?s1 ?looked)) = Inl e"
    by (simp add: casinoPromises_eq)
  from Promise_all_Inl [OF this] casinoInserts_frame [of now ?s1 ?looked]
  show ?thesis by blast
qed

lemma filter_selects_inserts:
  "list_all (\<lambda>q. \<exists>t n. q = InsertCasino t n) qs \<Longrightarrow>
   [q \<leftarrow> qs. \<exists>t n. q = SelectCasino t n] = []"
  by (induction qs) auto

lemma filter_selects_selects:
  "[q \<leftarrow> map (\<lambda>(t, n). SelectCasino t n) ps. \<exists>t n. q = SelectCasino t n] =
     map (\<lambda>(t, n). SelectCasino t n) ps"
  by (induction ps) auto

lemma casinoPromises_issued:
  assumes "casinoPromises now s ps = (r, s')"
  shows "\<exists>qs. issued s' = issued s @ qs \<and>
           [q \<leftarrow> qs. \<exists>t n. q = SelectCasino t n] = map (\<lambda>(t, n). SelectCasino t n) ps"
proof -
  let ?s1 = "s\<lparr>issued := issued s @ map (\<lambda>(t, n). SelectCasino t n) ps\<rparr>"
  let ?looked = "map (\<lambda>(t, n). ((t, n), select_casino s t n)) ps"
  from assms have s': "s' = snd (casinoInserts now ?s1 ?looked)"
    by (simp add: casinoPromises_eq)
  from casinoInserts_frame [of now ?s1 ?looked] obtain qs where
    qs: "issued s' = issued ?s1 @ qs" "list_all (\<lambda>q. \<exists>t n. q = InsertCasino t n) qs"
    unfolding s' by blast
  have "issued s' = issued s @ (map (\<lambda>(t, n). SelectCasino t n) ps @ qs)"
    using qs(1) by simp
  moreover have "[q \<leftarrow> map (\<lambda>(t, n). SelectCasino t n) ps @ qs. \<exists>t n. q = SelectCasino t n] =
      map (\<lambda>(t, n). SelectCasino t n) ps"
    by (simp only: filter_append filter_selects_selects filter_selects_inserts [OF qs(2)]
        append_Nil2)
  ultimately show ?thesis by blast
qed

lemma casinoPromises_results:
  assumes "casinoPromises now s ps = (Inr rs, s')"
  shows "rs = map (\<lambda>p. (fst p, hd (select_casino s' (fst p) (snd p)))) ps \<and>
         (\<forall>p\<in>set ps. select_casino s' (fst p) (snd p) \<noteq> [])"
proof -
  let ?s1 = "s\<lparr>issued := issued s @ map (\<lambda>(t, n). SelectCasino t n) ps\<rparr>"
  let ?looked = "map (\<lambda>(t, n). ((t, n), select_casino s t n)) ps"
  from assms have s': "s' = snd (casinoInserts now ?s1 ?looked)"
    and all: "Promise_all (fst (casinoInserts now ?s1 ?looked)) = Inr rs"
    by (simp_all add: casinoPromises_eq)
  from all have outcomes: "fst (casinoInserts now ?s1 ?looked) = map Inr rs"
    by (simp add: Promise_all_Inr)
  have inv: "\<forall>entry\<in>set ?looked. snd entry \<noteq> [] \<longrightarrow>
           (\<exists>ys. select_casino ?s1 (fst (fst entry)) (snd (fst entry)) = snd entry @ ys)"
    by auto
  from casinoInserts_results [OF outcomes inv] show ?thesis
    unfolding s' by (simp add: case_prod_beta comp_def)
qed

lemma casinoPromises_all_found:
  assumes "\<forall>p\<in>set ps. select_casino s (fst p) (snd p) \<noteq> []"
  shows "casinoPromises now s ps =
     (Inr (map (\<lambda>p. (fst p, hd (select_casino s (fst p) (snd p)))) ps),
      s\<lparr>issued := issued s @ map (\<lambda>p. SelectCasino (fst p) (snd p)) ps\<rparr>)"
proof -
  let ?looked = "map (\<lambda>(t, n). ((t, n), select_casino s t n)) ps"
  from assms have "\<forall>entry\<in>set ?looked. snd entry \<noteq> []" by auto
  from casinoInserts_all_found [OF this] show ?thesis
    by (simp add: casinoPromises_eq case_prod_beta comp_def Promise_all_Inr)
qed

text \<open>
  An entry whose lookup found nothing, when the store has its table id at the time of
  the inserts: the resolver ends with the storage error, writes no fact, and issues
  nothing but inserts after its lookups.
\<close>

lemma casinoPromises_between_conflict:
  assumes "(t, n) \<in> set ps" and "select_casino s t n = []"
    and "t \<in> table_id ` set (casino (others
           (s\<lparr>issued := issued s @ map (\<lambda>(t, n). SelectCasino t n) ps\<rparr>)))"
  shows "fst (casinoPromises_between others now s ps) = Inl StorageError"
    and "roulette_events (snd (casinoPromises_between others now s ps)) =
       roulette_events (others (s\<lparr>issued := issued s @ map (\<lambda>(t, n). SelectCasino t n) ps\<rparr>))"
    and "\<exists>qs. issued (snd (casinoPromises_between others now s ps)) =
           issued (others (s\<lparr>issued := issued s @ map (\<lambda>(t, n). SelectCasino t n) ps\<rparr>)) @ qs \<and>
           list_all (\<lambda>q. \<exists>t n. q = InsertCasino t n) qs"
proof -
  let ?s1 = "others (s\<lparr>issued := issued s @ map (\<lambda>(t, n). SelectCasino t n) ps\<rparr>)"
  let ?looked = "map (\<lambda>(t, n). ((t, n), select_casino s t n)) ps"
  note fr = casinoInserts_frame [of now ?s1 ?looked]
  from assms(1,2) have "((t, n), []) \<in> set ?looked" by force
  from casinoInserts_conflict [OF this assms(3), of now]
  obtain e where "Promise_all (fst (casinoInserts now ?s1 ?looked)) = Inl e"
    using Promise_all_rejects by blast
  moreover from Promise_all_Inl [OF this] fr have "e = StorageError" by blast
  ultimately show "fst (casinoPromises_between others now s ps) = Inl StorageError"
    by (simp add: casinoPromises_between_eq)
  from fr show "roulette_events (snd (casinoPromises_between others now s ps)) =
       roulette_events ?s1"
    by (simp add: casinoPromises_between_eq)
  from fr show "\<exists>qs. issued (snd (casinoPromises_between others now s ps)) = issued ?s1 @ qs \<and>
           list_all (\<lambda>q. \<exists>t n. q = InsertCasino t n) qs"
    by (simp add: casinoPromises_between_eq)
qed

lemma casinoPromises_conflict:
  assumes "(t, n) \<in> set ps" "select_casino s t n = []" "t \<in> table_id ` set (casino s)"
  shows "fst (casinoPromises now s ps) = Inl StorageError"
  using casinoPromises_between_conflict(1) [of t n ps s "\<lambda>s. s" now] assms
  by (simp add: casinoPromises_def)
subsection \<open>uniqueTables\<close>

lemma map_fst_foldl_uniqueTables:
  "map fst (foldl (\<lambda>m event.
              let t = table_data (data event)
              in if id_table t \<in> fst ` set m then m else m @ [(id_table t, name_table t)])
       m0 es) =
   foldl (\<lambda>S event. Set_add S (id_table (table_data (data event)))) (map fst m0) es"
  by (induction es arbitrary: m0) (simp_all add: Set_add_def Let_def)

lemma map_fst_uniqueTables: "map fst (uniqueTables R) = uniqueTableIds R"
  unfolding uniqueTables_def uniqueTableIds_def
  using map_fst_foldl_uniqueTables [of "[]" R] by simp

lemma distinct_uniqueTables: "distinct (map fst (uniqueTables R))"
  by (simp add: map_fst_uniqueTables distinct_uniqueTableIds)

lemma fst_set_uniqueTables: "fst ` set (uniqueTables R) = tid ` set R"
  using set_uniqueTableIds [of R] map_fst_uniqueTables [of R]
  by (metis set_map)

lemma map_of_foldl_uniqueTables:
  "map_of (foldl (\<lambda>m event.
              if tid event \<in> fst ` set m then m else m @ [(tid event, tname event)])
       m0 es) t =
   (case map_of m0 t of
      Some n \<Rightarrow> Some n
    | None \<Rightarrow> map_option tname (find (\<lambda>e. tid e = t) es))"
proof (induction es arbitrary: m0)
  case Nil
  show ?case by (simp split: option.splits)
next
  case (Cons e es)
  show ?case
  proof (cases "tid e \<in> fst ` set m0")
    case True
    then have "map_of m0 (tid e) \<noteq> None" by (simp add: map_of_eq_None_iff)
    with True show ?thesis
      by (auto simp: Cons split: option.splits)
  next
    case False
    then have "map_of m0 (tid e) = None" by (simp add: map_of_eq_None_iff)
    with False show ?thesis
      by (auto simp: Cons map_add_def split: option.splits)
  qed
qed

lemma map_of_uniqueTables:
  "map_of (uniqueTables R) t = map_option tname (find (\<lambda>e. tid e = t) R)"
  unfolding uniqueTables_def Let_def using map_of_foldl_uniqueTables [of "[]" R t] by simp

lemma uniqueTables_entry:
  assumes "(t, n) \<in> set (uniqueTables R)"
  shows "\<exists>e\<in>set R. tid e = t \<and> tname e = n"
proof -
  from assms distinct_uniqueTables have "map_of (uniqueTables R) t = Some n" by simp
  then obtain e where "find (\<lambda>e. tid e = t) R = Some e" "tname e = n"
    by (auto simp: map_of_uniqueTables)
  then show ?thesis by (auto simp: find_Some_iff)
qed

subsection \<open>casinoCache\<close>

lemma foldl_casinoCache:
  "foldl (\<lambda>m (tableId, casinoId). m(tableId \<mapsto> casinoId)) m0 rs t =
     (case map_of (rev rs) t of None \<Rightarrow> m0 t | Some i \<Rightarrow> Some i)"
  by (induction rs arbitrary: m0) (auto simp: map_add_def split: option.splits)

lemma casinoCache_rev: "casinoCache rs t = map_of (rev rs) t"
  by (simp add: casinoCache_def foldl_casinoCache split: option.splits)

lemma casinoCache_Some: "casinoCache rs t = Some i \<Longrightarrow> (t, i) \<in> set rs"
  by (auto simp: casinoCache_rev dest: map_of_SomeD)

lemma casinoCache_dom: "t \<in> fst ` set rs \<Longrightarrow> \<exists>i. casinoCache rs t = Some i"
  using map_of_eq_None_iff [of "rev rs" t] by (cases "casinoCache rs t") (auto simp: casinoCache_rev)

lemma casinoCache_distinct:
  "distinct (map fst rs) \<Longrightarrow> (t, i) \<in> set rs \<Longrightarrow> casinoCache rs t = Some i"
  by (simp add: casinoCache_rev distinct_rev rev_map [symmetric])

subsection \<open>rouletteEventsData\<close>

lemma rouletteEventsData_Inr:
  assumes "rouletteEventsData cache R = Inr rows"
  shows "rows = map (\<lambda>e. eventRow e (the (cache (tid e)))) R \<and> (\<forall>e\<in>set R. \<exists>i. cache (tid e) = Some i \<and> i \<noteq> 0)"
  using assms
  by (induction R arbitrary: rows)
    (auto simp: eventRow_def split: option.splits if_splits sum.splits)

lemma rouletteEventsData_total:
  assumes "\<forall>e\<in>set R. \<exists>i. cache (tid e) = Some i \<and> i \<noteq> 0"
  shows "rouletteEventsData cache R = Inr (map (\<lambda>e. eventRow e (the (cache (tid e)))) R)"
  using assms by (induction R) (auto simp: eventRow_def)

lemma rouletteEventsData_Inl: "rouletteEventsData cache R = Inl e \<Longrightarrow> e = IntegrityError"
  by (induction R arbitrary: e) (auto split: option.splits if_splits sum.splits)

subsection \<open>The bulk insert\<close>

lemma insert_row_casino [simp]: "casino (insert_row limits now s r) = casino s"
  by (simp add: insert_row_def Let_def split: option.splits)

lemma insert_row_issued [simp]: "issued (insert_row limits now s r) = issued s"
  by (simp add: insert_row_def Let_def split: option.splits)

lemma foldl_insert_row_casino [simp]: "casino (foldl (insert_row limits now) s rows) = casino s"
  by (induction rows arbitrary: s) simp_all

lemma foldl_insert_row_issued [simp]: "issued (foldl (insert_row limits now) s rows) = issued s"
  by (induction rows arbitrary: s) simp_all

lemma insert_row_event_ids:
  "row_accepted limits r \<Longrightarrow>
   event_id ` set (roulette_events (insert_row limits now s r)) =
     insert (event_id_new r) (event_id ` set (roulette_events s))"
  by (auto simp: insert_row_def row_accepted_def Let_def)

lemma foldl_insert_row_event_ids:
  "list_all (row_accepted limits) rows \<Longrightarrow>
   event_id ` set (roulette_events (foldl (insert_row limits now) s rows)) =
     event_id ` set (roulette_events s) \<union> event_id_new ` set rows"
  by (induction rows arbitrary: s) (auto simp: insert_row_event_ids)

lemma foldl_insert_row_known:
  "event_id_new ` set rows \<subseteq> event_id ` set (roulette_events s) \<Longrightarrow>
   roulette_events (foldl (insert_row limits now) s rows) = roulette_events s"
proof (induction rows arbitrary: s)
  case Nil
  show ?case by simp
next
  case (Cons r rows)
  from Cons.prems have r: "roulette_events (insert_row limits now s r) = roulette_events s"
    by (auto simp: insert_row_def Let_def)
  with Cons.prems Cons.IH [of "insert_row limits now s r"] show ?case by simp
qed

lemma insert_row_distinct:
  "distinct (map event_id (roulette_events s)) \<Longrightarrow>
   distinct (map event_id (roulette_events (insert_row limits now s r)))"
  by (auto simp: insert_row_def Let_def split: option.splits)

lemma foldl_insert_row_distinct:
  "distinct (map event_id (roulette_events s)) \<Longrightarrow>
   distinct (map event_id (roulette_events (foldl (insert_row limits now) s rows)))"
  by (induction rows arbitrary: s) (simp_all add: insert_row_distinct)

lemma insert_row_prefix:
  "\<exists>new. roulette_events (insert_row limits now s r) = roulette_events s @ new"
  by (simp add: insert_row_def Let_def split: option.splits)

lemma foldl_insert_row_prefix:
  "\<exists>new. roulette_events (foldl (insert_row limits now) s rows) = roulette_events s @ new"
proof (induction rows arbitrary: s)
  case Nil
  show ?case by simp
next
  case (Cons r rows)
  from insert_row_prefix [of limits now s r] obtain n1 where
    n1: "roulette_events (insert_row limits now s r) = roulette_events s @ n1" by auto
  from Cons.IH [of "insert_row limits now s r"] obtain n2 where
    "roulette_events (foldl (insert_row limits now) (insert_row limits now s r) rows) =
       roulette_events (insert_row limits now s r) @ n2" by auto
  with n1 show ?case by simp
qed

lemma length_insert_row:
  "length (roulette_events (insert_row limits now s r)) \<le> Suc (length (roulette_events s))"
  by (simp add: insert_row_def Let_def split: option.splits)

lemma length_foldl_insert_row:
  "length (roulette_events (foldl (insert_row limits now) s rows)) \<le>
     length (roulette_events s) + length rows"
proof (induction rows arbitrary: s)
  case Nil
  show ?case by simp
next
  case (Cons r rows)
  from Cons.IH [of "insert_row limits now s r"] length_insert_row [of limits now s r]
  show ?case by simp
qed

text \<open>The statement as a whole: it is accepted or it changes no table.\<close>

lemma insert_roulette_events_accepted:
  "statement_accepted limits rows \<Longrightarrow>
   insert_roulette_events limits now s rows =
     (Inr (), foldl (insert_row limits now) (issue (InsertRouletteEvents rows) s) rows)"
  by (simp add: insert_roulette_events_def Let_def)

lemma insert_roulette_events_rejected:
  "\<not> statement_accepted limits rows \<Longrightarrow>
   insert_roulette_events limits now s rows =
     (Inl StorageError, issue (InsertRouletteEvents rows) s)"
  by (simp add: insert_roulette_events_def Let_def)

lemma insert_roulette_events_fst:
  "fst (insert_roulette_events limits now s rows) =
     (if statement_accepted limits rows then Inr () else Inl StorageError)"
  by (simp add: insert_roulette_events_def Let_def)

lemma insert_roulette_events_casino [simp]:
  "casino (snd (insert_roulette_events limits now s rows)) = casino s"
  by (simp add: insert_roulette_events_def Let_def)

lemma insert_roulette_events_event_ids:
  "statement_accepted limits rows \<Longrightarrow>
   event_id ` set (roulette_events (snd (insert_roulette_events limits now s rows))) =
     event_id ` set (roulette_events s) \<union> event_id_new ` set rows"
  by (simp add: insert_roulette_events_def Let_def foldl_insert_row_event_ids statement_accepted_def)

lemma insert_roulette_events_known:
  "event_id_new ` set rows \<subseteq> event_id ` set (roulette_events s) \<Longrightarrow>
   roulette_events (snd (insert_roulette_events limits now s rows)) = roulette_events s"
  by (simp add: insert_roulette_events_def Let_def foldl_insert_row_known)

lemma insert_roulette_events_distinct:
  "distinct (map event_id (roulette_events s)) \<Longrightarrow>
   distinct (map event_id (roulette_events (snd (insert_roulette_events limits now s rows))))"
  by (simp add: insert_roulette_events_def Let_def foldl_insert_row_distinct)

lemma insert_roulette_events_prefix:
  "\<exists>new. roulette_events (snd (insert_roulette_events limits now s rows)) =
           roulette_events s @ new"
  using foldl_insert_row_prefix [of limits now "issue (InsertRouletteEvents rows) s" rows]
  by (simp add: insert_roulette_events_def Let_def)

lemma length_insert_roulette_events:
  "length (roulette_events (snd (insert_roulette_events limits now s rows))) \<le>
     length (roulette_events s) + length rows"
  using length_foldl_insert_row [of limits now "issue (InsertRouletteEvents rows) s" rows]
  by (simp add: insert_roulette_events_def Let_def)

subsection \<open>The orchestrator\<close>

lemma to_ingest_eq:
  "to_ingest s vs =
     filter (\<lambda>e. status (data e) = ''Resolved'' \<and>
                 (case latest_settled_at s (tid e) of None \<Rightarrow> True
                  | Some w \<Rightarrow> w < settledAt (data e))) vs"
  unfolding to_ingest_def resolvedEvents_def casinoQueries_eq fst_conv
  by (rule filter_cong [OF refl])
    (simp add: admitted_def casinoLatestSettledMap_queries set_uniqueTableIds)

lemma processValidatedFields_between_eq:
  "processValidatedFields_between limits others now vs s =
     (let s1 = s\<lparr>issued := issued s @ map SelectLatestSettled (uniqueTableIds vs)\<rparr>
      in if to_ingest s vs = [] then (Inr 0, s1)
         else (case casinoPromises_between others now s1 (uniqueTables (to_ingest s vs)) of
                 (Inl e, s2) \<Rightarrow> (Inl e, s2)
               | (Inr casinoResults, s2) \<Rightarrow>
                   (case rouletteEventsData (casinoCache casinoResults) (to_ingest s vs) of
                      Inl e \<Rightarrow> (Inl e, s2)
                    | Inr rows \<Rightarrow>
                        (case insert_roulette_events limits now s2 rows of
                           (Inl e, s3) \<Rightarrow> (Inl e, s3)
                         | (Inr u, s3) \<Rightarrow> (Inr (length (to_ingest s vs)), s3)))))"
proof -
  have rows: "rouletteEventsData cache R = Inr [] \<Longrightarrow> R = []" for cache R
    using rouletteEventsData_Inr [of cache R "[]"] by simp
  show ?thesis
    unfolding processValidatedFields_between_def to_ingest_def casinoQueries_eq
    by (auto simp: Let_def split: prod.splits sum.splits dest!: rows)
qed

lemma processValidatedFields_eq:
  "processValidatedFields limits now vs s =
     (let s1 = s\<lparr>issued := issued s @ map SelectLatestSettled (uniqueTableIds vs)\<rparr>
      in if to_ingest s vs = [] then (Inr 0, s1)
         else (case casinoPromises now s1 (uniqueTables (to_ingest s vs)) of
                 (Inl e, s2) \<Rightarrow> (Inl e, s2)
               | (Inr casinoResults, s2) \<Rightarrow>
                   (case rouletteEventsData (casinoCache casinoResults) (to_ingest s vs) of
                      Inl e \<Rightarrow> (Inl e, s2)
                    | Inr rows \<Rightarrow>
                        (case insert_roulette_events limits now s2 rows of
                           (Inl e, s3) \<Rightarrow> (Inl e, s3)
                         | (Inr u, s3) \<Rightarrow> (Inr (length (to_ingest s vs)), s3)))))"
  unfolding processValidatedFields_def processValidatedFields_between_eq casinoPromises_def ..

text \<open>The ways a run can end, with what each leaves.\<close>

lemma processValidatedFields_cases:
  obtains (empty) "to_ingest s vs = []"
      "processValidatedFields limits now vs s =
         (Inr 0, s\<lparr>issued := issued s @ map SelectLatestSettled (uniqueTableIds vs)\<rparr>)"
  | (resolver) s2 where "to_ingest s vs \<noteq> []"
      "casinoPromises now (s\<lparr>issued := issued s @ map SelectLatestSettled (uniqueTableIds vs)\<rparr>)
         (uniqueTables (to_ingest s vs)) = (Inl StorageError, s2)"
      "processValidatedFields limits now vs s = (Inl StorageError, s2)"
  | (integrity) rs s2 where "to_ingest s vs \<noteq> []"
      "casinoPromises now (s\<lparr>issued := issued s @ map SelectLatestSettled (uniqueTableIds vs)\<rparr>)
         (uniqueTables (to_ingest s vs)) = (Inr rs, s2)"
      "rouletteEventsData (casinoCache rs) (to_ingest s vs) = Inl IntegrityError"
      "processValidatedFields limits now vs s = (Inl IntegrityError, s2)"
  | (rejected) rs s2 rows where "to_ingest s vs \<noteq> []"
      "casinoPromises now (s\<lparr>issued := issued s @ map SelectLatestSettled (uniqueTableIds vs)\<rparr>)
         (uniqueTables (to_ingest s vs)) = (Inr rs, s2)"
      "rouletteEventsData (casinoCache rs) (to_ingest s vs) = Inr rows"
      "\<not> statement_accepted limits rows"
      "processValidatedFields limits now vs s =
         (Inl StorageError, snd (insert_roulette_events limits now s2 rows))"
  | (inserted) rs s2 rows where "to_ingest s vs \<noteq> []"
      "casinoPromises now (s\<lparr>issued := issued s @ map SelectLatestSettled (uniqueTableIds vs)\<rparr>)
         (uniqueTables (to_ingest s vs)) = (Inr rs, s2)"
      "rouletteEventsData (casinoCache rs) (to_ingest s vs) = Inr rows"
      "statement_accepted limits rows"
      "processValidatedFields limits now vs s =
         (Inr (length (to_ingest s vs)), snd (insert_roulette_events limits now s2 rows))"
proof -
  let ?R = "to_ingest s vs"
  let ?s1 = "s\<lparr>issued := issued s @ map SelectLatestSettled (uniqueTableIds vs)\<rparr>"
  show thesis
  proof (cases "?R = []")
    case True
    then show thesis by (intro empty) (simp_all add: processValidatedFields_eq)
  next
    case False
    obtain r2 s2 where cp: "casinoPromises now ?s1 (uniqueTables ?R) = (r2, s2)"
      by (cases "casinoPromises now ?s1 (uniqueTables ?R)")
    show thesis
    proof (cases r2)
      case (Inl e)
      with casinoPromises_error [of now ?s1 "uniqueTables ?R" e s2] cp
      have e: "e = StorageError" by simp
      show thesis
        using False cp Inl e by (intro resolver [of s2]) (simp_all add: processValidatedFields_eq)
    next
      case (Inr rs)
      show thesis
      proof (cases "rouletteEventsData (casinoCache rs) ?R")
        case (Inl e)
        with rouletteEventsData_Inl [OF Inl] have rd: "rouletteEventsData (casinoCache rs) ?R =
            Inl IntegrityError" by simp
        show thesis
          using False cp Inr rd
          by (intro integrity [of rs s2]) (simp_all add: processValidatedFields_eq)
      next
        case rows: (Inr rows)
        show thesis
        proof (cases "statement_accepted limits rows")
          case True
          show thesis
            using False cp Inr rows True
            by (intro inserted [of rs s2 rows])
              (simp_all add: processValidatedFields_eq insert_roulette_events_accepted)
        next
          case rej: False
          show thesis
            using False cp Inr rows rej
            by (intro rejected [of rs s2 rows])
              (simp_all add: processValidatedFields_eq insert_roulette_events_rejected)
        qed
      qed
    qed
  qed
qed
subsection \<open>The envelope of an event\<close>

lemma uniqueTableIds_envelope:
  assumes "\<And>e. data (h e) = data e"
  shows "uniqueTableIds (map h vs) = uniqueTableIds vs"
  by (simp add: uniqueTableIds_def foldl_map assms)

lemma admitted_envelope:
  assumes "\<And>e. data (h e) = data e"
  shows "admitted m (h e) = admitted m e"
  unfolding admitted_def assms ..

lemma resolvedEvents_envelope:
  assumes "\<And>e. data (h e) = data e"
  shows "resolvedEvents m (map h vs) = map h (resolvedEvents m vs)"
  by (simp add: resolvedEvents_def filter_map comp_def admitted_envelope [OF assms])

lemma to_ingest_envelope:
  assumes "\<And>e. data (h e) = data e"
  shows "to_ingest s (map h vs) = map h (to_ingest s vs)"
  by (simp add: to_ingest_def uniqueTableIds_envelope [OF assms] resolvedEvents_envelope [OF assms])

lemma uniqueTables_envelope:
  assumes "\<And>e. data (h e) = data e"
  shows "uniqueTables (map h R) = uniqueTables R"
  by (simp add: uniqueTables_def foldl_map assms)

lemma eventRow_envelope:
  assumes "\<And>e. data (h e) = data e"
  shows "eventRow (h e) i = eventRow e i"
  unfolding eventRow_def assms ..

lemma rouletteEventsData_envelope:
  assumes "\<And>e. data (h e) = data e"
  shows "rouletteEventsData cache (map h R) = rouletteEventsData cache R"
proof (induction R)
  case Nil
  show ?case by simp
next
  case (Cons e R)
  show ?case
    unfolding list.map rouletteEventsData.simps Cons assms eventRow_envelope [OF assms] ..
qed

lemma processValidatedFields_envelope:
  assumes "\<And>e. data (h e) = data e"
  shows "processValidatedFields limits now (map h vs) s = processValidatedFields limits now vs s"
  unfolding processValidatedFields_eq to_ingest_envelope [OF assms]
    uniqueTableIds_envelope [OF assms] uniqueTables_envelope [OF assms]
    rouletteEventsData_envelope [OF assms] length_map map_is_Nil_conv ..

lemma processValidatedFields_Inr:
  assumes "processValidatedFields limits now vs s = (Inr n, s')"
  shows "n = length (to_ingest s vs)"
    and "event_id ` set (roulette_events s') =
           event_id ` set (roulette_events s) \<union> (\<lambda>e. id_data (data e)) ` set (to_ingest s vs)"
    and "distinct (map event_id (roulette_events s)) \<Longrightarrow>
           distinct (map event_id (roulette_events s'))"
    and "\<exists>new. casino s' = casino s @ new"
proof -
  let ?R = "to_ingest s vs"
  let ?s1 = "s\<lparr>issued := issued s @ map SelectLatestSettled (uniqueTableIds vs)\<rparr>"
  have "n = length ?R \<and>
     event_id ` set (roulette_events s') =
       event_id ` set (roulette_events s) \<union> (\<lambda>e. id_data (data e)) ` set ?R \<and>
     (distinct (map event_id (roulette_events s)) \<longrightarrow>
       distinct (map event_id (roulette_events s'))) \<and>
     (\<exists>new. casino s' = casino s @ new)"
  proof (cases limits now vs s rule: processValidatedFields_cases)
    case empty
    with assms show ?thesis by auto
  next
    case (resolver s2)
    with assms show ?thesis by simp
  next
    case (integrity rs s2)
    with assms show ?thesis by simp
  next
    case (rejected rs s2 rows)
    with assms show ?thesis by simp
  next
    case (inserted rs s2 rows)
    from assms inserted(5) have n: "n = length ?R"
      and s': "s' = snd (insert_roulette_events limits now s2 rows)" by simp_all
    from casinoPromises_frame [OF inserted(2)]
    have ev2: "roulette_events s2 = roulette_events s" and c2: "\<exists>new. casino s2 = casino s @ new"
      by simp_all
    from rouletteEventsData_Inr [OF inserted(3)]
    have ids: "event_id_new ` set rows = (\<lambda>e. id_data (data e)) ` set ?R"
      by (auto simp: eventRow_def image_iff)
    show ?thesis
      using insert_roulette_events_event_ids [OF inserted(4), of now s2]
        insert_roulette_events_distinct [of s2 limits now rows]
      by (simp add: n s' ev2 ids c2)
  qed
  then show "n = length (to_ingest s vs)"
    and "event_id ` set (roulette_events s') =
           event_id ` set (roulette_events s) \<union> (\<lambda>e. id_data (data e)) ` set (to_ingest s vs)"
    and "distinct (map event_id (roulette_events s)) \<Longrightarrow>
           distinct (map event_id (roulette_events s'))"
    and "\<exists>new. casino s' = casino s @ new"
    by simp_all
qed


subsection \<open>Evaluation on concrete inputs\<close>

lemmas pipeline_defs =
  processValidatedFields_def processValidatedFields_between_def
  casinoQueries.simps casinoQuery_def uniqueTableIds_def Set_add_def
  latest_settled_at_def casinoLatestSettledMap_def resolvedEvents_def admitted_def
  uniqueTables_def casinoPromises_def casinoPromises_between_def casinoLookups_def
  casinoInserts.simps Promise_all.simps
  select_casino_def insert_casino_def casinoCache_def rouletteEventsData.simps eventRow_def
  insert_roulette_events_def insert_row_def statement_accepted_def row_accepted_def
  pg_limits_def issue_def to_ingest_def Let_def

lemmas sample_defs =
  sample_event_def sample_casino_def sample_fact_def empty_store_def two_table_store_def

lemma twin_run:
  "processValidatedFields pg_limits 100 twin_batch empty_store =
     (Inr 2,
      \<lparr>casino = [\<lparr>casino_pk = 1, table_id = ''204'', table_name = ''Mega Roulette'',
                  casino_created_at = 100\<rparr>],
       roulette_events = [\<lparr>roulette_events_pk = 1, event_id = ''a'', started_at = 0,
                  settled_at = 5, outcome_number = 35, outcome_type = ''Odd'',
                  outcome_color = ''Black'', casino_id = 1, created_at = 100\<rparr>],
       casino_id_seq = 2, roulette_events_id_seq = 3,
       issued = [SelectLatestSettled ''204'', SelectCasino ''204'' ''Mega Roulette'',
                 InsertCasino ''204'' ''Mega Roulette'',
                 InsertRouletteEvents
                   [\<lparr>event_id_new = ''a'', started_at_new = 0, settled_at_new = 5,
                     outcome_number_new = 35, outcome_type_new = ''Odd'',
                     outcome_color_new = ''Black'', casino_id_new = 1\<rparr>,
                    \<lparr>event_id_new = ''a'', started_at_new = 0, settled_at_new = 5,
                     outcome_number_new = 35, outcome_type_new = ''Odd'',
                     outcome_color_new = ''Black'', casino_id_new = 1\<rparr>]]\<rparr>)"
  by (simp add: pipeline_defs twin_batch_def sample_defs)

lemma to_ingest_twin_batch: "to_ingest empty_store twin_batch = twin_batch"
  by (simp add: pipeline_defs twin_batch_def sample_defs)

lemma to_ingest_stale_batch: "to_ingest two_table_store stale_batch = []"
  by (simp add: pipeline_defs stale_batch_def sample_defs)
section \<open>The empty to-ingest set\<close>

text \<open>
  Claim C8. For every validated batch whose to-ingest set is empty, the run returns
  \<^verbatim>\<open>{processed: 0}\<close> and leaves the store as it was: the only statements it has
  issued are the watermark reads, one per distinct table id of the batch. No casino
  lookup, no casino insert and no insert into the fact table (in particular no empty
  bulk insert) is issued.
\<close>

theorem empty_to_ingest_short_circuit:
  assumes "to_ingest s validatedFields = []"
  shows "processValidatedFields limits now validatedFields s =
     (Inr 0, s\<lparr>issued := issued s @ map SelectLatestSettled (uniqueTableIds validatedFields)\<rparr>)"
  using assms by (simp add: processValidatedFields_eq)

theorem empty_to_ingest_short_circuit_witness:
  "to_ingest two_table_store stale_batch = []
   \<and> processValidatedFields pg_limits 100 stale_batch two_table_store =
       (Inr 0, two_table_store\<lparr>issued := [SelectLatestSettled ''204'', SelectLatestSettled ''305'']\<rparr>)"
proof -
  have ids: "uniqueTableIds stale_batch = [''204'', ''305'']"
    by (simp add: uniqueTableIds_def stale_batch_def sample_event_def Set_add_def)
  from empty_to_ingest_short_circuit [OF to_ingest_stale_batch, of pg_limits 100]
    to_ingest_stale_batch
  show ?thesis
    by (simp add: ids two_table_store_def)
qed

section \<open>The integrity check\<close>

text \<open>
  The construction of the fact rows cannot fail after a successful resolution, but the
  run can still fail after it: the bulk insert is the last statement, and the store may
  reject it.
\<close>

text \<open>
  Claim C9, as stated, does not hold. On the empty store, a batch of one resolved event
  whose outcome number is 2147483648 (a number the schema accepts) passes the dimension
  resolution with the positive surrogate id 1 for its only table id, and the run does
  not return \<^verbatim>\<open>{processed: 1}\<close>: the store cannot read the number into the
  \<^verbatim>\<open>INTEGER\<close> column, the bulk insert is rejected and the run throws.
\<close>

theorem processed_not_returned:
  "to_ingest empty_store oversized_batch = oversized_batch
   \<and> fst (casinoPromises 100 (snd (casinoQueries empty_store (uniqueTableIds oversized_batch)))
            (uniqueTables (to_ingest empty_store oversized_batch))) = Inr [(''204'', 1)]
   \<and> fst (processValidatedFields pg_limits 100 oversized_batch empty_store) = Inl StorageError
   \<and> fst (processValidatedFields pg_limits 100 oversized_batch empty_store) \<noteq>
       Inr (length (to_ingest empty_store oversized_batch))
   \<and> roulette_events (snd (processValidatedFields pg_limits 100 oversized_batch empty_store)) = []"
  by (simp add: pipeline_defs oversized_batch_def numbered_event_def sample_defs)

text \<open>
  Claim C9, amended. Suppose the dimension resolution of a run succeeded for the table
  ids of its to-ingest set and every surrogate id it returned is positive. Then every
  to-ingest event finds a positive casino id in the cache and the construction of the
  fact rows does not throw: it yields one row per to-ingest event, so the run does not end
  with the integrity error. What the run returns is decided by the bulk insert alone: if
  the store accepts the statement the run returns \<^verbatim>\<open>{processed: n}\<close> with \<open>n\<close> the
  size of the to-ingest set, the number of rows attempted, an upper bound of the number
  of rows the fact table gains; if the store rejects the statement the run throws the
  storage error and the fact table is as it was.
\<close>

theorem integrity_error_unreachable:
  assumes run: "casinoPromises now (snd (casinoQueries s (uniqueTableIds validatedFields)))
                  (uniqueTables (to_ingest s validatedFields)) = (Inr casinoResults, s2)"
    and pos: "\<forall>(tableId, casinoId) \<in> set casinoResults. 0 < casinoId"
  shows "(\<forall>event \<in> set (to_ingest s validatedFields).
            \<exists>casinoId. casinoCache casinoResults (tid event) = Some casinoId \<and> 0 < casinoId)
    \<and> rouletteEventsData (casinoCache casinoResults) (to_ingest s validatedFields) =
        Inr (map (\<lambda>event. eventRow event (the (casinoCache casinoResults (tid event))))
               (to_ingest s validatedFields))
    \<and> fst (processValidatedFields limits now validatedFields s) \<noteq> Inl IntegrityError
    \<and> fst (processValidatedFields limits now validatedFields s) =
        (if statement_accepted limits
              (map (\<lambda>event. eventRow event (the (casinoCache casinoResults (tid event))))
                 (to_ingest s validatedFields))
         then Inr (length (to_ingest s validatedFields)) else Inl StorageError)
    \<and> (\<not> statement_accepted limits
              (map (\<lambda>event. eventRow event (the (casinoCache casinoResults (tid event))))
                 (to_ingest s validatedFields)) \<longrightarrow>
         roulette_events (snd (processValidatedFields limits now validatedFields s)) =
           roulette_events s)
    \<and> length (roulette_events (snd (processValidatedFields limits now validatedFields s))) \<le>
        length (roulette_events s) + length (to_ingest s validatedFields)"
proof -
  let ?R = "to_ingest s validatedFields"
  let ?s1 = "s\<lparr>issued := issued s @ map SelectLatestSettled (uniqueTableIds validatedFields)\<rparr>"
  let ?rows = "map (\<lambda>event. eventRow event (the (casinoCache casinoResults (tid event)))) ?R"
  let ?pv = "processValidatedFields limits now validatedFields s"
  from run have run1: "casinoPromises now ?s1 (uniqueTables ?R) = (Inr casinoResults, s2)"
    by (simp add: casinoQueries_eq)
  from casinoPromises_results [OF run1]
  have "map fst casinoResults = map fst (uniqueTables ?R)" by (simp add: comp_def)
  then have keys: "fst ` set casinoResults = tid ` set ?R"
    using fst_set_uniqueTables [of ?R] by (metis set_map)
  have cache: "\<exists>casinoId. casinoCache casinoResults (tid event) = Some casinoId \<and> 0 < casinoId"
    if "event \<in> set ?R" for event
  proof -
    from that keys have "tid event \<in> fst ` set casinoResults" by auto
    from casinoCache_dom [OF this] obtain i where i: "casinoCache casinoResults (tid event) = Some i"
      by auto
    from casinoCache_Some [OF i] pos have "0 < i" by auto
    with i show ?thesis by simp
  qed
  then have "\<forall>e\<in>set ?R. \<exists>i. casinoCache casinoResults (tid e) = Some i \<and> i \<noteq> 0"
    by fastforce
  from rouletteEventsData_total [OF this]
  have rows: "rouletteEventsData (casinoCache casinoResults) ?R = Inr ?rows" .
  from casinoPromises_frame [OF run1] have ev2: "roulette_events s2 = roulette_events s" by simp
  have pv: "?pv = (if ?R = [] then (Inr 0, ?s1)
       else (case insert_roulette_events limits now s2 ?rows of
               (Inl e, s3) \<Rightarrow> (Inl e, s3)
             | (Inr u, s3) \<Rightarrow> (Inr (length ?R), s3)))"
    by (simp add: processValidatedFields_eq run1 rows Let_def)
  have res: "fst ?pv = (if statement_accepted limits ?rows then Inr (length ?R)
                        else Inl StorageError)"
  proof (cases "?R = []")
    case True
    then show ?thesis by (simp add: pv statement_accepted_def)
  next
    case False
    then show ?thesis
      by (simp add: pv insert_roulette_events_accepted insert_roulette_events_rejected)
  qed
  then have no: "fst ?pv \<noteq> Inl IntegrityError" by simp
  have kept: "roulette_events (snd ?pv) = roulette_events s"
    if "\<not> statement_accepted limits ?rows"
  proof (cases "?R = []")
    case True
    then show ?thesis by (simp add: pv)
  next
    case False
    with that show ?thesis
      by (simp add: pv insert_roulette_events_rejected ev2)
  qed
  have len: "length (roulette_events (snd ?pv)) \<le> length (roulette_events s) + length ?R"
  proof (cases "?R = []")
    case True
    then show ?thesis by (simp add: pv)
  next
    case False
    have "snd ?pv = snd (insert_roulette_events limits now s2 ?rows)"
      using False by (simp add: pv split: prod.splits sum.splits)
    with length_insert_roulette_events [of limits now s2 ?rows] show ?thesis
      by (simp add: ev2)
  qed
  from cache have c: "\<forall>event \<in> set ?R.
      \<exists>casinoId. casinoCache casinoResults (tid event) = Some casinoId \<and> 0 < casinoId"
    by blast
  from kept have k: "\<not> statement_accepted limits ?rows \<longrightarrow>
      roulette_events (snd ?pv) = roulette_events s" by blast
  show ?thesis
    by (intro conjI) (fact c rows no res k len)+
qed

theorem integrity_error_unreachable_witness:
  "casinoPromises 100 (snd (casinoQueries empty_store (uniqueTableIds twin_batch)))
      (uniqueTables (to_ingest empty_store twin_batch)) =
     (Inr [(''204'', 1)],
      snd (casinoPromises 100 (snd (casinoQueries empty_store (uniqueTableIds twin_batch)))
             (uniqueTables (to_ingest empty_store twin_batch))))
   \<and> fst (processValidatedFields pg_limits 100 twin_batch empty_store) = Inr 2
   \<and> fst (processValidatedFields pg_limits 100 twin_batch empty_store) \<noteq> Inl IntegrityError
   \<and> length (to_ingest empty_store twin_batch) = 2
   \<and> length (roulette_events (snd (processValidatedFields pg_limits 100 twin_batch empty_store))) = 1"
proof -
  have run: "casinoPromises 100 (snd (casinoQueries empty_store (uniqueTableIds twin_batch)))
      (uniqueTables (to_ingest empty_store twin_batch)) =
     (Inr [(''204'', 1)],
      snd (casinoPromises 100 (snd (casinoQueries empty_store (uniqueTableIds twin_batch)))
             (uniqueTables (to_ingest empty_store twin_batch))))"
    by (simp add: pipeline_defs twin_batch_def sample_defs)
  have pos: "\<forall>(tableId, casinoId) \<in> set [(''204'', 1::int)]. 0 < casinoId"
    by simp
  from integrity_error_unreachable [OF run pos, of pg_limits]
  have "fst (processValidatedFields pg_limits 100 twin_batch empty_store) \<noteq> Inl IntegrityError"
    by blast
  moreover have "length twin_batch = 2"
    by (simp add: twin_batch_def)
  ultimately show ?thesis
    using run by (simp add: to_ingest_twin_batch twin_run)
qed

section \<open>The external event id\<close>

text \<open>
  Claim C10. In a run that returns, the processed count is the number of to-ingest
  events, and the event ids of the fact table afterwards are those it had before together
  with the inner ids (\<^verbatim>\<open>event.data.id\<close>) of the to-ingest events. The envelope id
  (\<^verbatim>\<open>event.id\<close>) is never stored: replacing the envelopes of the batch by anything
  with the same \<^verbatim>\<open>data\<close> gives the same result and the same store. Event ids that
  were unique in the fact table stay unique, so two payload elements with different
  envelope ids and one inner id count twice in the processed count and give at most one
  fact row.
\<close>

theorem event_id_is_inner_id:
  assumes "processValidatedFields limits now validatedFields s = (Inr processed, s')"
  shows "processed = length (to_ingest s validatedFields)
    \<and> event_id ` set (roulette_events s') =
        event_id ` set (roulette_events s) \<union>
        (\<lambda>event. id_data (data event)) ` set (to_ingest s validatedFields)
    \<and> (distinct (map event_id (roulette_events s)) \<longrightarrow>
        distinct (map event_id (roulette_events s')))
    \<and> (\<forall>h. (\<forall>event. data (h event) = data event) \<longrightarrow>
          processValidatedFields limits now (map h validatedFields) s = (Inr processed, s'))"
  using processValidatedFields_Inr(1-3) [OF assms] assms
  by (simp add: processValidatedFields_envelope)

theorem event_id_is_inner_id_witness:
  "fst (processValidatedFields pg_limits 100 twin_batch empty_store) = Inr 2
   \<and> map id_event twin_batch = [''envelope-1'', ''envelope-2'']
   \<and> map event_id
        (roulette_events (snd (processValidatedFields pg_limits 100 twin_batch empty_store))) =
       [''a'']
   \<and> processValidatedFields pg_limits 100
        (map (\<lambda>event. event\<lparr>id_event := ''none''\<rparr>) twin_batch) empty_store =
       processValidatedFields pg_limits 100 twin_batch empty_store"
proof -
  have h: "\<forall>event. data ((\<lambda>event. event\<lparr>id_event := ''none''\<rparr>) event) = data event"
    by simp
  from event_id_is_inner_id [OF twin_run] h
  have "processValidatedFields pg_limits 100
          (map (\<lambda>event. event\<lparr>id_event := ''none''\<rparr>) twin_batch) empty_store =
        processValidatedFields pg_limits 100 twin_batch empty_store"
    unfolding twin_run by blast
  then show ?thesis
    by (simp add: twin_run) (simp add: twin_batch_def sample_event_def)
qed

section \<open>The schema validator\<close>

lemma z_object_Some: "z_object i = Some j \<Longrightarrow> i = Some j \<and> (\<exists>kvs. j = JObject kvs)"
  by (cases i rule: z_object.cases) auto

lemma z_literal_Some: "z_literal lits i = Some t \<Longrightarrow> i = Some (JString t) \<and> t \<in> set lits"
  by (cases "(lits, i)" rule: z_literal.cases) (simp_all split: if_splits)

lemma those_Some: "those xs = Some ys \<Longrightarrow> \<forall>x\<in>set xs. x \<noteq> None"
  by (induction xs arbitrary: ys) (auto split: option.splits)

lemma z_array_Some:
  "z_array f i = Some ys \<Longrightarrow> \<exists>xs. i = Some (JArray xs) \<and> (\<forall>x\<in>set xs. f (Some x) \<noteq> None)"
  by (cases "(f, i)" rule: z_array.cases) (auto dest: those_Some)

lemma RouletteOutcomeSchema_Some:
  assumes "RouletteOutcomeSchema i = Some oc"
  shows "\<exists>j. i = Some j \<and>
     key j ''type'' = Some (JString (type_outcome oc)) \<and>
     type_outcome oc \<in> {''Even'', ''Odd''} \<and>
     key j ''color'' = Some (JString (color_outcome oc)) \<and>
     color_outcome oc \<in> {''Red'', ''Black'', ''Green''}"
  using assms unfolding RouletteOutcomeSchema_def
  by (auto split: Option.bind_splits dest!: z_object_Some z_literal_Some)

lemma RouletteResultSchema_Some:
  assumes "RouletteResultSchema i = Some r"
  shows "\<exists>j. i = Some j \<and> RouletteOutcomeSchema (key j ''outcome'') = Some (outcome r)"
  using assms unfolding RouletteResultSchema_def
  by (auto split: Option.bind_splits dest!: z_object_Some)

lemma RouletteDataSchema_Some:
  assumes "RouletteDataSchema coerce_date i = Some d"
  shows "\<exists>j. i = Some j \<and> RouletteResultSchema (key j ''result'') = Some (result_data d)"
  using assms unfolding RouletteDataSchema_def
  by (auto split: Option.bind_splits dest!: z_object_Some)

lemma RouletteEventSchema_Some:
  assumes "RouletteEventSchema coerce_date i = Some ev"
  shows "\<exists>j. i = Some j \<and> RouletteDataSchema coerce_date (key j ''data'') = Some (data ev)"
  using assms unfolding RouletteEventSchema_def
  by (auto split: Option.bind_splits dest!: z_object_Some)

lemma RouletteEventSchema_enums:
  assumes "RouletteEventSchema coerce_date (Some x) = Some ev"
  shows "path x [''data'', ''result'', ''outcome'', ''type''] =
           Some (JString (type_outcome (outcome (result_data (data ev)))))
    \<and> type_outcome (outcome (result_data (data ev))) \<in> {''Even'', ''Odd''}
    \<and> path x [''data'', ''result'', ''outcome'', ''color''] =
           Some (JString (color_outcome (outcome (result_data (data ev)))))
    \<and> color_outcome (outcome (result_data (data ev))) \<in> {''Red'', ''Black'', ''Green''}"
proof -
  from RouletteEventSchema_Some [OF assms]
  have d: "RouletteDataSchema coerce_date (key x ''data'') = Some (data ev)" by simp
  from RouletteDataSchema_Some [OF d] obtain jd where
    jd: "key x ''data'' = Some jd"
    and r: "RouletteResultSchema (key jd ''result'') = Some (result_data (data ev))" by auto
  from RouletteResultSchema_Some [OF r] obtain jr where
    jr: "key jd ''result'' = Some jr"
    and oc: "RouletteOutcomeSchema (key jr ''outcome'') = Some (outcome (result_data (data ev)))"
    by auto
  from RouletteOutcomeSchema_Some [OF oc] obtain jo where
    jo: "key jr ''outcome'' = Some jo"
    and t: "key jo ''type'' = Some (JString (type_outcome (outcome (result_data (data ev)))))"
       "type_outcome (outcome (result_data (data ev))) \<in> {''Even'', ''Odd''}"
    and c: "key jo ''color'' = Some (JString (color_outcome (outcome (result_data (data ev)))))"
       "color_outcome (outcome (result_data (data ev))) \<in> {''Red'', ''Black'', ''Green''}"
    by auto
  show ?thesis
    using t c by (simp add: jd jr jo)
qed

lemma parse_Inr:
  assumes "RouletteEventsArraySchema_parse coerce_date events = Inr vs"
  shows "\<exists>xs. events = JArray xs \<and>
           (\<forall>x\<in>set xs. RouletteEventSchema coerce_date (Some x) \<noteq> None)"
  using assms unfolding RouletteEventsArraySchema_parse_def
  by (auto split: option.splits dest!: z_array_Some)

lemma parse_Inl:
  "RouletteEventsArraySchema_parse coerce_date events = Inl e \<Longrightarrow> e = ValidationError"
  unfolding RouletteEventsArraySchema_parse_def by (auto split: option.splits)

text \<open>
  Claim C7. For every parsed JSON payload: if the payload is not an array, or one of its
  elements fails the event schema, or one of its elements has at
  \<^verbatim>\<open>data.result.outcome.type\<close> anything but the string \<^verbatim>\<open>Even\<close> or \<^verbatim>\<open>Odd\<close>,
  or at \<^verbatim>\<open>data.result.outcome.color\<close> anything but \<^verbatim>\<open>Red\<close>, \<^verbatim>\<open>Black\<close> or
  \<^verbatim>\<open>Green\<close>, then the parse throws the validation error for the whole batch, and
  the run that fetched the payload ends with that error in the store it started from:
  no statement is issued, no casino and no fact is written.
\<close>

theorem validation_rejects_batch:
  assumes "(\<forall>xs. events \<noteq> JArray xs) \<or>
     (\<exists>xs x. events = JArray xs \<and> x \<in> set xs \<and>
        (RouletteEventSchema coerce_date (Some x) = None \<or>
         path x [''data'', ''result'', ''outcome'', ''type'']
           \<notin> {Some (JString ''Even''), Some (JString ''Odd'')} \<or>
         path x [''data'', ''result'', ''outcome'', ''color'']
           \<notin> {Some (JString ''Red''), Some (JString ''Black''), Some (JString ''Green'')}))"
  shows "RouletteEventsArraySchema_parse coerce_date events = Inl ValidationError
    \<and> processRouletteData limits coerce_date now
         \<lparr>ok = True, status_code = code, json_body = events\<rparr> s = (Inl ValidationError, s)"
proof -
  have "RouletteEventsArraySchema_parse coerce_date events = Inl ValidationError"
  proof (cases "RouletteEventsArraySchema_parse coerce_date events")
    case (Inl e)
    with parse_Inl [OF Inl] show ?thesis by simp
  next
    case (Inr vs)
    from parse_Inr [OF Inr] obtain xs where xs: "events = JArray xs"
      and ok: "\<forall>x\<in>set xs. RouletteEventSchema coerce_date (Some x) \<noteq> None" by auto
    from assms xs obtain x where x: "x \<in> set xs"
      and bad: "RouletteEventSchema coerce_date (Some x) = None \<or>
         path x [''data'', ''result'', ''outcome'', ''type'']
           \<notin> {Some (JString ''Even''), Some (JString ''Odd'')} \<or>
         path x [''data'', ''result'', ''outcome'', ''color'']
           \<notin> {Some (JString ''Red''), Some (JString ''Black''), Some (JString ''Green'')}"
      by auto
    from ok x obtain ev where ev: "RouletteEventSchema coerce_date (Some x) = Some ev" by auto
    from RouletteEventSchema_enums [OF ev] bad ev have False by auto
    then show ?thesis ..
  qed
  then show ?thesis
    by (simp add: processRouletteData_def fetchRouletteData_def)
qed

lemma sample_json_event_parses:
  "RouletteEventsArraySchema_parse sample_coerce_date (JArray [sample_json_event ''Odd'' ''Black'']) =
     Inr [\<lparr>id_event = ''69113ae63b80475fd08b5c20'',
           data = \<lparr>id_data = ''6aa9bf20e0d68e7558b3c517'', startedAt = 1762736830000,
                    settledAt = 1762736870000, status = ''Resolved'', gameType = ''megaroulette'',
                    table_data = \<lparr>id_table = ''204'', name_table = ''Mega Roulette''\<rparr>,
                    result_data = \<lparr>outcome = \<lparr>number_outcome = 35, type_outcome = ''Odd'',
                                               color_outcome = ''Black''\<rparr>,
                                    luckyNumbersList =
                                      Some [\<lparr>number_lucky = 0, roundedMultiplier = 100\<rparr>,
                                            \<lparr>number_lucky = 3, roundedMultiplier = 150\<rparr>]\<rparr>\<rparr>\<rparr>]"
  by (simp add: RouletteEventsArraySchema_parse_def RouletteEventSchema_def RouletteDataSchema_def
      RouletteResultSchema_def RouletteTableSchema_def RouletteOutcomeSchema_def
      LuckyNumberSchema_def sample_json_event_def)

theorem validation_rejects_batch_witness:
  "RouletteEventsArraySchema_parse sample_coerce_date
      (JArray [sample_json_event ''Odd'' ''Black'', sample_json_event ''Odd'' ''Blue'']) =
     Inl ValidationError
   \<and> processRouletteData pg_limits sample_coerce_date 100
        \<lparr>ok = True, status_code = 200,
         json_body = JArray [sample_json_event ''Odd'' ''Black'', sample_json_event ''Odd'' ''Blue'']\<rparr>
        empty_store = (Inl ValidationError, empty_store)
   \<and> RouletteEventsArraySchema_parse sample_coerce_date (sample_json_event ''Odd'' ''Black'') =
     Inl ValidationError
   \<and> (\<exists>validatedFields.
        RouletteEventsArraySchema_parse sample_coerce_date (JArray [sample_json_event ''Odd'' ''Black''])
          = Inr validatedFields)"
proof -
  let ?good = "sample_json_event ''Odd'' ''Black''"
  let ?bad = "sample_json_event ''Odd'' ''Blue''"
  have colour: "path ?bad [''data'', ''result'', ''outcome'', ''color'']
      \<notin> {Some (JString ''Red''), Some (JString ''Black''), Some (JString ''Green'')}"
    by (simp add: sample_json_event_def)
  have h1: "(\<forall>xs. JArray [?good, ?bad] \<noteq> JArray xs) \<or>
     (\<exists>xs x. JArray [?good, ?bad] = JArray xs \<and> x \<in> set xs \<and>
        (RouletteEventSchema sample_coerce_date (Some x) = None \<or>
         path x [''data'', ''result'', ''outcome'', ''type'']
           \<notin> {Some (JString ''Even''), Some (JString ''Odd'')} \<or>
         path x [''data'', ''result'', ''outcome'', ''color'']
           \<notin> {Some (JString ''Red''), Some (JString ''Black''), Some (JString ''Green'')}))"
    using colour
    by (intro disjI2 exI [of _ "[?good, ?bad]"] exI [of _ ?bad] conjI) simp_all
  have h2: "(\<forall>xs. ?good \<noteq> JArray xs) \<or>
     (\<exists>xs x. ?good = JArray xs \<and> x \<in> set xs \<and>
        (RouletteEventSchema sample_coerce_date (Some x) = None \<or>
         path x [''data'', ''result'', ''outcome'', ''type'']
           \<notin> {Some (JString ''Even''), Some (JString ''Odd'')} \<or>
         path x [''data'', ''result'', ''outcome'', ''color'']
           \<notin> {Some (JString ''Red''), Some (JString ''Black''), Some (JString ''Green'')}))"
    by (rule disjI1) (simp add: sample_json_event_def)
  from validation_rejects_batch [OF h1, of pg_limits 100 200 empty_store]
    validation_rejects_batch [OF h2, of pg_limits 100 200 empty_store] sample_json_event_parses
  show ?thesis by simp
qed

section \<open>The retention pruner\<close>

text \<open>
  Month arithmetic, not ninety days: from 2025-05-31 12:00 UTC the threshold is
  2025-03-03 12:00 UTC (February has no 31st day; the date runs on into March), one day
  after the instant ninety days back. Across a year boundary, 2025-01-15 gives 2024-10-15.
\<close>

lemma threeMonthsAgo_examples:
  "threeMonthsAgo 0 1748692800000 = 1741003200000"
  "threeMonthsAgo 0 1748692800000 \<noteq> 1748692800000 - 90 * msPerDay"
  "threeMonthsAgo 0 1736899200000 = 1728950400000"
  by code_simp+

lemma threeMonthsAgo_retention_now: "threeMonthsAgo 0 retention_now = 1754791200000"
  by code_simp

lemma delete_roulette_events_frame:
  assumes "delete_roulette_events s threshold = (deleteResult, s1)"
  shows "roulette_events s1 = filter (\<lambda>r. \<not> created_at r < threshold) (roulette_events s)"
    and "casino s1 = casino s"
    and "issued s1 = issued s @ [DeleteRouletteEvents threshold]"
    and "count deleteResult = length (roulette_events s) - length (roulette_events s1)"
    and "returned deleteResult = []"
proof -
  have "length (filter (\<lambda>r. created_at r < threshold) (roulette_events s)) =
      length (roulette_events s) -
      length (filter (\<lambda>r. \<not> created_at r < threshold) (roulette_events s))"
    using sum_length_filter_compl [of "\<lambda>r. created_at r < threshold" "roulette_events s"]
    by simp
  with assms show "roulette_events s1 = filter (\<lambda>r. \<not> created_at r < threshold) (roulette_events s)"
    and "casino s1 = casino s"
    and "issued s1 = issued s @ [DeleteRouletteEvents threshold]"
    and "count deleteResult = length (roulette_events s) - length (roulette_events s1)"
    and "returned deleteResult = []"
    by (auto simp: delete_roulette_events_def)
qed

text \<open>
  The script \<^verbatim>\<open>scripts/cleanup-old-roulette-events.js\<close> deletes nothing and returns
  nothing, on every store and at every time: its function throws before it reaches the
  store.
\<close>

lemma cleanupOldRouletteEvents_js_throws:
  "cleanupOldRouletteEvents_js tza now s = (Inl ReferenceError, s)"
  by (simp add: cleanupOldRouletteEvents_js_def cleanup_body_def)

text \<open>
  The variants that reach the store delete exactly the facts created before the
  threshold and touch nothing else; the route reports the number of rows deleted, the
  TypeScript copies of the script report 0.
\<close>

lemma cleanupOldRouletteEvents_route_correct:
  assumes "cleanupOldRouletteEvents_route tza now s = (deleted, s1)"
  shows "roulette_events s1 =
           filter (\<lambda>r. \<not> created_at r < threeMonthsAgo tza now) (roulette_events s)
    \<and> casino s1 = casino s
    \<and> deleted = Inr (length (roulette_events s) - length (roulette_events s1))"
proof -
  obtain dr s' where d: "delete_roulette_events s (threeMonthsAgo tza now) = (dr, s')"
    by (cases "delete_roulette_events s (threeMonthsAgo tza now)")
  with assms have "s1 = s'" "deleted = Inr (count dr)"
    by (simp_all add: cleanupOldRouletteEvents_route_def cleanup_body_def)
  with delete_roulette_events_frame [OF d] show ?thesis by simp
qed

lemma cleanupOldRouletteEvents_ts_reports_zero:
  assumes "cleanupOldRouletteEvents_ts tza now s = (deleted, s1)"
  shows "roulette_events s1 =
           filter (\<lambda>r. \<not> created_at r < threeMonthsAgo tza now) (roulette_events s)
    \<and> casino s1 = casino s
    \<and> deleted = Inr 0"
proof -
  obtain dr s' where d: "delete_roulette_events s (threeMonthsAgo tza now) = (dr, s')"
    by (cases "delete_roulette_events s (threeMonthsAgo tza now)")
  with assms have "s1 = s'" "deleted = Inr (length (returned dr))"
    by (simp_all add: cleanupOldRouletteEvents_ts_def cleanup_body_def)
  with delete_roulette_events_frame [OF d] show ?thesis by simp
qed

lemma delete_retention_store:
  "delete_roulette_events retention_store 1754791200000 =
     (\<lparr>returned = [], count = 1\<rparr>,
      retention_store\<lparr>roulette_events := [sample_fact 2 ''b'' 70 1 1760061600000],
                      issued := [DeleteRouletteEvents 1754791200000]\<rparr>)"
  by (simp add: delete_roulette_events_def issue_def retention_store_def sample_fact_def)

text \<open>
  Claim C6, evaluated on a store with one fact four months old and one fact one month
  old. The script \<^verbatim>\<open>scripts/cleanup-old-roulette-events.js\<close> throws the reference
  error and leaves the store as it found it: the fact created before the instant three
  calendar months back is still there, no statement was issued, and nothing is
  returned. The cleaner route, on the same store, deletes that one fact, keeps the
  younger fact and the casino row, and returns \<^verbatim>\<open>{deleted: 1}\<close>; the TypeScript copies
  of the script do the same delete and return \<^verbatim>\<open>{deleted: 0}\<close>.
\<close>

theorem cleanup_script_throws:
  "cleanupOldRouletteEvents_js 0 retention_now retention_store =
     (Inl ReferenceError, retention_store)
   \<and> length (roulette_events retention_store) = 2
   \<and> length (filter (\<lambda>r. created_at r < threeMonthsAgo 0 retention_now)
               (roulette_events retention_store)) = 1
   \<and> issued retention_store = []
   \<and> cleanupOldRouletteEvents_route 0 retention_now retention_store =
     (Inr 1, retention_store\<lparr>roulette_events := [sample_fact 2 ''b'' 70 1 1760061600000],
                             issued := [DeleteRouletteEvents 1754791200000]\<rparr>)
   \<and> cleanupOldRouletteEvents_ts 0 retention_now retention_store =
     (Inr 0, retention_store\<lparr>roulette_events := [sample_fact 2 ''b'' 70 1 1760061600000],
                             issued := [DeleteRouletteEvents 1754791200000]\<rparr>)"
proof -
  have old: "length (filter (\<lambda>r. created_at r < threeMonthsAgo 0 retention_now)
               (roulette_events retention_store)) = 1"
    unfolding threeMonthsAgo_retention_now
    by (simp add: retention_store_def sample_fact_def)
  have route: "cleanupOldRouletteEvents_route 0 retention_now retention_store =
     (Inr 1, retention_store\<lparr>roulette_events := [sample_fact 2 ''b'' 70 1 1760061600000],
                             issued := [DeleteRouletteEvents 1754791200000]\<rparr>)"
    by (simp add: cleanupOldRouletteEvents_route_def cleanup_body_def
        threeMonthsAgo_retention_now delete_retention_store)
  have ts: "cleanupOldRouletteEvents_ts 0 retention_now retention_store =
     (Inr 0, retention_store\<lparr>roulette_events := [sample_fact 2 ''b'' 70 1 1760061600000],
                             issued := [DeleteRouletteEvents 1754791200000]\<rparr>)"
    by (simp add: cleanupOldRouletteEvents_ts_def cleanup_body_def
        threeMonthsAgo_retention_now delete_retention_store)
  have js: "cleanupOldRouletteEvents_js 0 retention_now retention_store =
     (Inl ReferenceError, retention_store)"
    by (simp add: cleanupOldRouletteEvents_js_def cleanup_body_def)
  have store: "length (roulette_events retention_store) = 2" "issued retention_store = []"
    by (simp_all add: retention_store_def)
  show ?thesis
    by (intro conjI) (fact js store old route ts)+
qed

section \<open>The uniqueness constraint of the casino table\<close>

text \<open>
  The store of a run when its resolver has done its lookups: the watermark reads and the
  casino lookups are issued, no table has changed. What other runs do to the store comes
  next, and then the inserts of this run.
\<close>

lemma lookups_done:
  "snd (casinoLookups (snd (casinoQueries s (uniqueTableIds vs))) (uniqueTables (to_ingest s vs))) =
     s\<lparr>issued := issued s @ map SelectLatestSettled (uniqueTableIds vs) @
                  map (\<lambda>(t, n). SelectCasino t n) (uniqueTables (to_ingest s vs))\<rparr>"
  by (simp add: casinoLookups_def casinoQueries_eq)

lemma processValidatedFields_between_conflict:
  assumes "(t, n) \<in> set (uniqueTables (to_ingest s vs))"
    and "select_casino s t n = []"
    and "t \<in> table_id ` set (casino (others
           (snd (casinoLookups (snd (casinoQueries s (uniqueTableIds vs)))
                   (uniqueTables (to_ingest s vs))))))"
  shows "fst (processValidatedFields_between limits others now vs s) = Inl StorageError"
    and "roulette_events (snd (processValidatedFields_between limits others now vs s)) =
           roulette_events (others
             (snd (casinoLookups (snd (casinoQueries s (uniqueTableIds vs)))
                     (uniqueTables (to_ingest s vs)))))"
    and "\<exists>qs. issued (snd (processValidatedFields_between limits others now vs s)) =
           issued (others
             (snd (casinoLookups (snd (casinoQueries s (uniqueTableIds vs)))
                     (uniqueTables (to_ingest s vs))))) @ qs \<and>
           list_all (\<lambda>q. \<exists>t n. q = InsertCasino t n) qs"
proof -
  let ?s1 = "s\<lparr>issued := issued s @ map SelectLatestSettled (uniqueTableIds vs)\<rparr>"
  let ?R = "to_ingest s vs"
  let ?ps = "uniqueTables ?R"
  let ?s2 = "others (?s1\<lparr>issued := issued ?s1 @ map (\<lambda>(t, n). SelectCasino t n) ?ps\<rparr>)"
  have s2: "others (snd (casinoLookups (snd (casinoQueries s (uniqueTableIds vs))) ?ps)) = ?s2"
    by (simp add: lookups_done)
  from assms(1) have ne: "?R \<noteq> []" by (auto simp: uniqueTables_def)
  from assms(2) have sel: "select_casino ?s1 t n = []" by simp
  from assms(3) have hit: "t \<in> table_id ` set (casino ?s2)"
    unfolding s2 .
  note c = casinoPromises_between_conflict
    [where others = others and s = ?s1 and ps = ?ps and now = now, OF assms(1) sel hit]
  obtain r3 s3 where cp: "casinoPromises_between others now ?s1 ?ps = (r3, s3)"
    by (cases "casinoPromises_between others now ?s1 ?ps")
  with c(1) have r3: "r3 = Inl StorageError" by simp
  have pv: "processValidatedFields_between limits others now vs s = (Inl StorageError, s3)"
    by (simp add: processValidatedFields_between_eq ne cp r3)
  show "fst (processValidatedFields_between limits others now vs s) = Inl StorageError"
    by (simp add: pv)
  from c(2) show "roulette_events (snd (processValidatedFields_between limits others now vs s)) =
      roulette_events (others (snd (casinoLookups (snd (casinoQueries s (uniqueTableIds vs)))
         (uniqueTables (to_ingest s vs)))))"
    unfolding s2 by (simp add: pv cp)
  from c(3) show "\<exists>qs. issued (snd (processValidatedFields_between limits others now vs s)) =
      issued (others (snd (casinoLookups (snd (casinoQueries s (uniqueTableIds vs)))
         (uniqueTables (to_ingest s vs))))) @ qs \<and>
      list_all (\<lambda>q. \<exists>t n. q = InsertCasino t n) qs"
    unfolding s2 by (simp add: pv cp)
qed

text \<open>
  Claim C5 as stated does not hold. First, the race of the claim: the lookup of this run
  finds no casino \<^verbatim>\<open>204\<close>, another run creates it, the insert of this run hits the
  constraint; a re-fetch would find the row (with id 1), but the run ends with the
  storage error, its last statement the failed insert, and no fact is written. Second, a
  run alone on a store that has the table id under another name: the insert hits the
  constraint and the run ends the same way.
\<close>

theorem unique_violation_not_recovered:
  "to_ingest empty_store plain_batch = plain_batch
   \<and> select_casino empty_store ''204'' ''Mega Roulette'' = []
   \<and> select_casino
        (other_run_creates
           (snd (casinoLookups (snd (casinoQueries empty_store (uniqueTableIds plain_batch)))
                   (uniqueTables (to_ingest empty_store plain_batch)))))
        ''204'' ''Mega Roulette'' = [1]
   \<and> processValidatedFields_between pg_limits other_run_creates 100 plain_batch empty_store =
        (Inl StorageError,
         \<lparr>casino = [sample_casino 1 ''204'' ''Mega Roulette''], roulette_events = [],
          casino_id_seq = 3, roulette_events_id_seq = 1,
          issued = [SelectLatestSettled ''204'', SelectCasino ''204'' ''Mega Roulette'',
                    InsertCasino ''204'' ''Mega Roulette'']\<rparr>)
   \<and> select_casino one_table_store ''204'' ''Mega Roulette Live'' = []
   \<and> processValidatedFields pg_limits 100 renamed_batch one_table_store =
        (Inl StorageError,
         one_table_store\<lparr>casino_id_seq := 3,
           issued := [SelectLatestSettled ''204'', SelectCasino ''204'' ''Mega Roulette Live'',
                      InsertCasino ''204'' ''Mega Roulette Live'']\<rparr>)"
  by (simp add: pipeline_defs other_run_creates_def one_table_store_def renamed_batch_def
      plain_batch_def sample_defs)

text \<open>
  Claim C5, amended. Whenever a casino insert of a run hits the uniqueness constraint on
  \<^verbatim>\<open>table_id\<close> (the lookup of the run found no row for the pair of a to-ingest
  table, and a row with the table id is in the store when the inserts execute, because
  another run created it after the lookup or because the table id is stored under
  another display name), the resolver does not fetch the existing row: the violation
  propagates and the run ends with the storage error. After its lookups the run issues
  casino inserts only, no second lookup and no insert into the fact table, and it leaves
  the fact table as the other runs left it: the run writes no fact.
\<close>

theorem unique_violation_propagates:
  assumes "(tableId, tableName) \<in> set (uniqueTables (to_ingest s validatedFields))"
    and "select_casino s tableId tableName = []"
    and "tableId \<in> table_id ` set (casino (others
           (snd (casinoLookups (snd (casinoQueries s (uniqueTableIds validatedFields)))
                   (uniqueTables (to_ingest s validatedFields))))))"
  shows "fst (processValidatedFields_between limits others now validatedFields s) =
           Inl StorageError
    \<and> roulette_events (snd (processValidatedFields_between limits others now validatedFields s)) =
        roulette_events (others
          (snd (casinoLookups (snd (casinoQueries s (uniqueTableIds validatedFields)))
                  (uniqueTables (to_ingest s validatedFields)))))
    \<and> (\<exists>statements.
          issued (snd (processValidatedFields_between limits others now validatedFields s)) =
            issued (others
              (snd (casinoLookups (snd (casinoQueries s (uniqueTableIds validatedFields)))
                      (uniqueTables (to_ingest s validatedFields))))) @ statements \<and>
          list_all (\<lambda>q. \<exists>t n. q = InsertCasino t n) statements)"
  using processValidatedFields_between_conflict
    [where others = others and limits = limits and now = now, OF assms]
  by (intro conjI)

theorem unique_violation_propagates_witness:
  "(''204'', ''Mega Roulette'') \<in> set (uniqueTables (to_ingest empty_store plain_batch))
   \<and> select_casino empty_store ''204'' ''Mega Roulette'' = []
   \<and> ''204'' \<in> table_id ` set (casino (other_run_creates
           (snd (casinoLookups (snd (casinoQueries empty_store (uniqueTableIds plain_batch)))
                   (uniqueTables (to_ingest empty_store plain_batch))))))
   \<and> fst (processValidatedFields_between pg_limits other_run_creates 100 plain_batch empty_store) =
        Inl StorageError
   \<and> roulette_events
        (snd (processValidatedFields_between pg_limits other_run_creates 100 plain_batch
                empty_store)) = []
   \<and> (''204'', ''Mega Roulette Live'') \<in> set (uniqueTables (to_ingest one_table_store renamed_batch))
   \<and> select_casino one_table_store ''204'' ''Mega Roulette Live'' = []
   \<and> fst (processValidatedFields pg_limits 100 renamed_batch one_table_store) = Inl StorageError
   \<and> roulette_events (snd (processValidatedFields pg_limits 100 renamed_batch one_table_store)) = []"
proof -
  have mem: "(''204'', ''Mega Roulette'') \<in> set (uniqueTables (to_ingest empty_store plain_batch))"
    by (simp add: pipeline_defs plain_batch_def sample_defs)
  have sel: "select_casino empty_store ''204'' ''Mega Roulette'' = []"
    by (simp add: select_casino_def sample_defs)
  have hit: "''204'' \<in> table_id ` set (casino (other_run_creates
           (snd (casinoLookups (snd (casinoQueries empty_store (uniqueTableIds plain_batch)))
                   (uniqueTables (to_ingest empty_store plain_batch))))))"
    by (simp add: other_run_creates_def sample_defs)
  have mem': "(''204'', ''Mega Roulette Live'') \<in>
      set (uniqueTables (to_ingest one_table_store renamed_batch))"
    by (simp add: pipeline_defs one_table_store_def renamed_batch_def sample_defs)
  have sel': "select_casino one_table_store ''204'' ''Mega Roulette Live'' = []"
    by (simp add: select_casino_def one_table_store_def sample_defs)
  have hit': "''204'' \<in> table_id ` set (casino ((\<lambda>s. s)
           (snd (casinoLookups (snd (casinoQueries one_table_store (uniqueTableIds renamed_batch)))
                   (uniqueTables (to_ingest one_table_store renamed_batch))))))"
    by (simp add: lookups_done one_table_store_def sample_defs)
  have race: "fst (processValidatedFields_between pg_limits other_run_creates 100 plain_batch
        empty_store) = Inl StorageError
     \<and> roulette_events (snd (processValidatedFields_between pg_limits other_run_creates 100
          plain_batch empty_store)) = []"
    using unique_violation_propagates [where others = other_run_creates and limits = pg_limits
        and now = 100, OF mem sel hit]
    by (simp add: lookups_done other_run_creates_def empty_store_def)
  have alone: "fst (processValidatedFields pg_limits 100 renamed_batch one_table_store) =
        Inl StorageError
     \<and> roulette_events (snd (processValidatedFields pg_limits 100 renamed_batch one_table_store)) = []"
    using unique_violation_propagates [where others = "\<lambda>s. s" and limits = pg_limits
        and now = 100, OF mem' sel' hit']
    by (simp add: lookups_done processValidatedFields_def one_table_store_def)
  from mem sel hit race mem' sel' alone show ?thesis
    by (intro conjI) simp_all
qed

section \<open>The dimension resolver\<close>

lemma hd_select_casino:
  assumes "select_casino s t n \<noteq> []"
  shows "\<exists>c\<in>set (casino s). table_id c = t \<and> table_name c = n \<and>
           casino_pk c = hd (select_casino s t n)"
proof -
  from assms have "hd (select_casino s t n) \<in> set (select_casino s t n)" by simp
  then show ?thesis by (auto simp: select_casino_def)
qed

text \<open>What a successful resolution has in its cache for an entry.\<close>

lemma casinoPromises_cache:
  assumes run: "casinoPromises now s ps = (Inr rs, s')"
    and d: "distinct (map fst ps)" and p: "(t, n) \<in> set ps"
  shows "select_casino s' t n \<noteq> []"
    and "casinoCache rs t = Some (hd (select_casino s' t n))"
proof -
  note res = casinoPromises_results [OF run]
  from res p show ne: "select_casino s' t n \<noteq> []" by auto
  from res have keys: "map fst rs = map fst ps" by (simp add: comp_def)
  from res p have "(t, hd (select_casino s' t n)) \<in> set rs" by force
  with d keys show "casinoCache rs t = Some (hd (select_casino s' t n))"
    by (simp add: casinoCache_distinct)
qed

lemma rows_casino_id:
  assumes run: "casinoPromises now s (uniqueTables R) = (Inr rs, s')"
    and rows: "rouletteEventsData (casinoCache rs) R = Inr rows"
    and i: "i < length R"
  shows "\<exists>c\<in>set (casino s'). table_id c = tid (R ! i) \<and> casino_pk c = casino_id_new (rows ! i)"
proof -
  from rouletteEventsData_Inr [OF rows] i
  have r: "casino_id_new (rows ! i) = the (casinoCache rs (tid (R ! i)))"
    by (simp add: eventRow_def)
  from i have "tid (R ! i) \<in> fst ` set (uniqueTables R)"
    by (simp add: fst_set_uniqueTables)
  then obtain n where n: "(tid (R ! i), n) \<in> set (uniqueTables R)" by auto
  note c = casinoPromises_cache [OF run distinct_uniqueTables n]
  from hd_select_casino [OF c(1)] c(2) r show ?thesis by auto
qed

lemma distinct_table_id_eq:
  assumes "distinct (map table_id cs)" "c \<in> set cs" "c' \<in> set cs" "table_id c = table_id c'"
  shows "c = c'"
  using assms by (auto simp: distinct_map dest: inj_onD)

text \<open>
  Claim C4 as stated does not hold: the resolver works per table id, not per pair. In a
  batch that carries the table \<^verbatim>\<open>204\<close> under two display names, both events are to
  ingest and the pair \<^verbatim>\<open>(204, Mega Roulette Live)\<close> appears in the to-ingest set,
  but the resolver is invoked for \<^verbatim>\<open>(204, Mega Roulette)\<close> only: no lookup is issued
  for the second pair and no casino row is made for it.
\<close>

theorem resolver_skips_second_name:
  "(''204'', ''Mega Roulette Live'') \<in>
      (\<lambda>event. (tid event, tname event)) ` set (to_ingest empty_store two_names_batch)
   \<and> uniqueTables (to_ingest empty_store two_names_batch) = [(''204'', ''Mega Roulette'')]
   \<and> fst (processValidatedFields pg_limits 100 two_names_batch empty_store) = Inr 2
   \<and> SelectCasino ''204'' ''Mega Roulette Live'' \<notin>
       set (issued (snd (processValidatedFields pg_limits 100 two_names_batch empty_store)))
   \<and> casino (snd (processValidatedFields pg_limits 100 two_names_batch empty_store)) =
       [\<lparr>casino_pk = 1, table_id = ''204'', table_name = ''Mega Roulette'',
         casino_created_at = 100\<rparr>]"
  by (simp add: pipeline_defs two_names_batch_def sample_defs)

text \<open>
  Claim C4, amended. The resolver is invoked once for every distinct table id of the
  to-ingest set, with the display name of the first to-ingest event that carries the id:
  the entries have distinct table ids, cover the table ids of the to-ingest set, pair
  each with that first name, and the casino lookups a successful resolution issues are
  those of the entries, in order. For each entry the cache holds the id of the first
  stored row matching both fields when there is one, and otherwise the id of a row that
  the resolution added for the pair. Consequently the fact rows of a run that share a
  table id (so, all that share a pair) carry the same casino id; and they carry the same
  casino id as the fact rows of that table id built by any later run, in a store that
  still has the casino rows of the earlier run and whose table ids are unique.
\<close>

theorem dimension_resolver_per_table_id:
  assumes runA: "casinoPromises nowA sA (uniqueTables RA) = (Inr resultsA, sA')"
    and rowsA: "rouletteEventsData (casinoCache resultsA) RA = Inr rowsA"
    and runB: "casinoPromises nowB sB (uniqueTables RB) = (Inr resultsB, sB')"
    and rowsB: "rouletteEventsData (casinoCache resultsB) RB = Inr rowsB"
    and later: "set (casino sA') \<subseteq> set (casino sB)"
    and unique: "distinct (map table_id (casino sB))"
  shows "distinct (map fst (uniqueTables RA))
    \<and> fst ` set (uniqueTables RA) = tid ` set RA
    \<and> (\<forall>t. map_of (uniqueTables RA) t = map_option tname (find (\<lambda>event. tid event = t) RA))
    \<and> (\<exists>qs. issued sA' = issued sA @ qs \<and>
          [q \<leftarrow> qs. \<exists>t n. q = SelectCasino t n] =
            map (\<lambda>(t, n). SelectCasino t n) (uniqueTables RA))
    \<and> (\<forall>t n. (t, n) \<in> set (uniqueTables RA) \<longrightarrow>
          (if select_casino sA t n \<noteq> []
           then casinoCache resultsA t = Some (hd (select_casino sA t n))
           else \<exists>c\<in>set (casino sA'). c \<notin> set (casino sA) \<and> table_id c = t \<and>
                  table_name c = n \<and> casinoCache resultsA t = Some (casino_pk c)))
    \<and> (\<forall>i j. i < length RA \<and> j < length RA \<and> tid (RA ! i) = tid (RA ! j) \<longrightarrow>
          casino_id_new (rowsA ! i) = casino_id_new (rowsA ! j))
    \<and> (\<forall>i j. i < length RA \<and> j < length RB \<and> tid (RA ! i) = tid (RB ! j) \<longrightarrow>
          casino_id_new (rowsA ! i) = casino_id_new (rowsB ! j))"
proof -
  have entries: "if select_casino sA t n \<noteq> []
           then casinoCache resultsA t = Some (hd (select_casino sA t n))
           else \<exists>c\<in>set (casino sA'). c \<notin> set (casino sA) \<and> table_id c = t \<and>
                  table_name c = n \<and> casinoCache resultsA t = Some (casino_pk c)"
    if p: "(t, n) \<in> set (uniqueTables RA)" for t n
  proof -
    note c = casinoPromises_cache [OF runA distinct_uniqueTables p]
    from casinoPromises_frame [OF runA] obtain new where new: "casino sA' = casino sA @ new"
      by auto
    note app = select_casino_append [OF new, of t n]
    show ?thesis
    proof (cases "select_casino sA t n = []")
      case False
      with app have "hd (select_casino sA' t n) = hd (select_casino sA t n)" by simp
      with c(2) False show ?thesis by simp
    next
      case True
      from hd_select_casino [OF c(1)] obtain c' where c': "c' \<in> set (casino sA')"
        "table_id c' = t" "table_name c' = n" "casino_pk c' = hd (select_casino sA' t n)"
        by auto
      have "c' \<notin> set (casino sA)"
      proof
        assume "c' \<in> set (casino sA)"
        with c'(2,3) have "casino_pk c' \<in> set (select_casino sA t n)"
          by (auto simp: select_casino_def)
        with True show False by simp
      qed
      with c' c(2) True show ?thesis by auto
    qed
  qed
  have within: "casino_id_new (rowsA ! i) = casino_id_new (rowsA ! j)"
    if "i < length RA" "j < length RA" "tid (RA ! i) = tid (RA ! j)" for i j
    using rouletteEventsData_Inr [OF rowsA] that by (simp add: eventRow_def)
  have across: "casino_id_new (rowsA ! i) = casino_id_new (rowsB ! j)"
    if i: "i < length RA" and j: "j < length RB" and eq: "tid (RA ! i) = tid (RB ! j)" for i j
  proof -
    from rows_casino_id [OF runA rowsA i] obtain cA where cA: "cA \<in> set (casino sA')"
      "table_id cA = tid (RA ! i)" "casino_pk cA = casino_id_new (rowsA ! i)" by auto
    from rows_casino_id [OF runB rowsB j] obtain cB where cB: "cB \<in> set (casino sB')"
      "table_id cB = tid (RB ! j)" "casino_pk cB = casino_id_new (rowsB ! j)" by auto
    from casinoPromises_frame [OF runB] have "set (casino sB) \<subseteq> set (casino sB')" by auto
    with later cA(1) have "cA \<in> set (casino sB')" by auto
    from distinct_table_id_eq [OF casinoPromises_distinct [OF runB unique] this cB(1)] cA(2) cB(2) eq
    have "cA = cB" by simp
    with cA(3) cB(3) show ?thesis by simp
  qed
  have c1: "distinct (map fst (uniqueTables RA))" by (rule distinct_uniqueTables)
  have c2: "fst ` set (uniqueTables RA) = tid ` set RA" by (rule fst_set_uniqueTables)
  have c3: "\<forall>t. map_of (uniqueTables RA) t = map_option tname (find (\<lambda>event. tid event = t) RA)"
    by (simp add: map_of_uniqueTables)
  note c4 = casinoPromises_issued [OF runA]
  from entries have c5: "\<forall>t n. (t, n) \<in> set (uniqueTables RA) \<longrightarrow>
          (if select_casino sA t n \<noteq> []
           then casinoCache resultsA t = Some (hd (select_casino sA t n))
           else \<exists>c\<in>set (casino sA'). c \<notin> set (casino sA) \<and> table_id c = t \<and>
                  table_name c = n \<and> casinoCache resultsA t = Some (casino_pk c))"
    by blast
  from within have c6: "\<forall>i j. i < length RA \<and> j < length RA \<and> tid (RA ! i) = tid (RA ! j) \<longrightarrow>
          casino_id_new (rowsA ! i) = casino_id_new (rowsA ! j)"
    by blast
  from across have c7: "\<forall>i j. i < length RA \<and> j < length RB \<and> tid (RA ! i) = tid (RB ! j) \<longrightarrow>
          casino_id_new (rowsA ! i) = casino_id_new (rowsB ! j)"
    by blast
  show ?thesis
    by (intro conjI) (fact c1 c2 c3 c4 c5 c6 c7)+
qed

theorem dimension_resolver_per_table_id_witness:
  "casinoPromises 100 empty_store (uniqueTables two_names_batch) =
     (Inr [(''204'', 1)], snd (casinoPromises 100 empty_store (uniqueTables two_names_batch)))
   \<and> rouletteEventsData (casinoCache [(''204'', 1)]) two_names_batch =
       Inr [eventRow (two_names_batch ! 0) 1, eventRow (two_names_batch ! 1) 1]
   \<and> casinoPromises 200 (snd (casinoPromises 100 empty_store (uniqueTables two_names_batch)))
       (uniqueTables later_batch) =
     (Inr [(''204'', 1)],
      snd (casinoPromises 200 (snd (casinoPromises 100 empty_store (uniqueTables two_names_batch)))
             (uniqueTables later_batch)))
   \<and> rouletteEventsData (casinoCache [(''204'', 1)]) later_batch =
       Inr [eventRow (later_batch ! 0) 1]
   \<and> tname (two_names_batch ! 1) \<noteq> tname (later_batch ! 0)
   \<and> casino_id_new (eventRow (two_names_batch ! 1) 1) =
       casino_id_new (eventRow (later_batch ! 0) 1)"
proof -
  let ?sA = "snd (casinoPromises 100 empty_store (uniqueTables two_names_batch))"
  let ?sB = "snd (casinoPromises 200 ?sA (uniqueTables later_batch))"
  have sA: "casino ?sA = [\<lparr>casino_pk = 1, table_id = ''204'', table_name = ''Mega Roulette'',
         casino_created_at = 100\<rparr>]"
    by (simp add: pipeline_defs two_names_batch_def sample_defs)
  have runA: "casinoPromises 100 empty_store (uniqueTables two_names_batch) =
     (Inr [(''204'', 1)], ?sA)"
    by (simp add: pipeline_defs two_names_batch_def sample_defs)
  have rowsA: "rouletteEventsData (casinoCache [(''204'', 1)]) two_names_batch =
       Inr [eventRow (two_names_batch ! 0) 1, eventRow (two_names_batch ! 1) 1]"
    by (simp add: casinoCache_def two_names_batch_def sample_defs)
  have runB: "casinoPromises 200 ?sA (uniqueTables later_batch) = (Inr [(''204'', 1)], ?sB)"
    by (simp add: pipeline_defs two_names_batch_def later_batch_def sample_defs)
  have rowsB: "rouletteEventsData (casinoCache [(''204'', 1)]) later_batch =
       Inr [eventRow (later_batch ! 0) 1]"
    by (simp add: casinoCache_def later_batch_def sample_defs)
  have later: "set (casino ?sA) \<subseteq> set (casino ?sA)" by simp
  have unique: "distinct (map table_id (casino ?sA))" by (simp add: sA)
  have names: "tname (two_names_batch ! 1) \<noteq> tname (later_batch ! 0)"
    by (simp add: two_names_batch_def later_batch_def sample_defs)
  from dimension_resolver_per_table_id [OF runA rowsA runB rowsB later unique]
  have "\<forall>i j. i < length two_names_batch \<and> j < length later_batch \<and>
          tid (two_names_batch ! i) = tid (later_batch ! j) \<longrightarrow>
          casino_id_new ([eventRow (two_names_batch ! 0) 1, eventRow (two_names_batch ! 1) 1] ! i) =
          casino_id_new ([eventRow (later_batch ! 0) 1] ! j)"
    by blast
  then have "casino_id_new (eventRow (two_names_batch ! 1) 1) =
       casino_id_new (eventRow (later_batch ! 0) 1)"
    by (simp add: eventRow_def)
  with runA rowsA runB rowsB names show ?thesis by blast
qed

section \<open>Running the same payload twice\<close>

subsection \<open>The fact table only grows\<close>

lemma processValidatedFields_grows:
  assumes "processValidatedFields limits now vs s = (r, s')"
  shows "\<exists>new. roulette_events s' = roulette_events s @ new"
    and "\<exists>new. casino s' = casino s @ new"
proof -
  have "(\<exists>new. roulette_events s' = roulette_events s @ new) \<and>
        (\<exists>new. casino s' = casino s @ new)"
  proof (cases limits now vs s rule: processValidatedFields_cases)
    case empty
    with assms show ?thesis by auto
  next
    case (resolver s2)
    with assms casinoPromises_frame [OF resolver(2)] show ?thesis by simp
  next
    case (integrity rs s2)
    with assms casinoPromises_frame [OF integrity(2)] show ?thesis by simp
  next
    case (rejected rs s2 rows)
    from assms rejected(5) have s': "s' = snd (insert_roulette_events limits now s2 rows)"
      by simp
    from casinoPromises_frame [OF rejected(2)] insert_roulette_events_prefix [of limits now s2 rows]
    show ?thesis by (simp add: s')
  next
    case (inserted rs s2 rows)
    from assms inserted(5) have s': "s' = snd (insert_roulette_events limits now s2 rows)"
      by simp
    from casinoPromises_frame [OF inserted(2)] insert_roulette_events_prefix [of limits now s2 rows]
    show ?thesis by (simp add: s')
  qed
  then show "\<exists>new. roulette_events s' = roulette_events s @ new"
    and "\<exists>new. casino s' = casino s @ new" by simp_all
qed

subsection \<open>The watermark only rises\<close>

lemma latest_settled_at_mono:
  assumes ev: "set (roulette_events s0) \<subseteq> set (roulette_events s1)"
    and ca: "set (casino s0) \<subseteq> set (casino s1)"
  shows "case latest_settled_at s1 k of
           None \<Rightarrow> latest_settled_at s0 k = None
         | Some w1 \<Rightarrow> (case latest_settled_at s0 k of None \<Rightarrow> True | Some w0 \<Rightarrow> w0 \<le> w1)"
proof -
  define F where "F s = {settled_at re |re c. re \<in> set (roulette_events s) \<and> c \<in> set (casino s) \<and>
                 casino_id re = casino_pk c \<and> table_id c = k}" for s :: db
  have sub: "F s0 \<subseteq> F s1" unfolding F_def using ev ca by blast
  have fin: "finite (F s1)"
    unfolding F_def set_joined [symmetric] by (rule List.finite_set)
  have l: "latest_settled_at s k = (if F s = {} then None else Some (Max (F s)))" for s
    using latest_settled_at_Max [of s k] unfolding Let_def F_def .
  show ?thesis
  proof (cases "F s1 = {}")
    case True
    with sub have "F s0 = {}" by blast
    with True show ?thesis by (simp add: l)
  next
    case False
    show ?thesis
    proof (cases "F s0 = {}")
      case True
      with False show ?thesis by (simp add: l)
    next
      case F0: False
      from Max_mono [OF sub F0 fin] False F0 show ?thesis by (simp add: l)
    qed
  qed
qed

lemma to_ingest_mono:
  assumes ev: "set (roulette_events s0) \<subseteq> set (roulette_events s1)"
    and ca: "set (casino s0) \<subseteq> set (casino s1)"
  shows "set (to_ingest s1 vs) \<subseteq> set (to_ingest s0 vs)"
proof
  fix e
  assume "e \<in> set (to_ingest s1 vs)"
  then have e: "e \<in> set vs" "status (data e) = ''Resolved''"
    "case latest_settled_at s1 (tid e) of None \<Rightarrow> True | Some w \<Rightarrow> w < settledAt (data e)"
    by (simp_all add: to_ingest_eq)
  from latest_settled_at_mono [OF ev ca, of "tid e"] e(3)
  have "case latest_settled_at s0 (tid e) of None \<Rightarrow> True | Some w \<Rightarrow> w < settledAt (data e)"
    by (auto split: option.splits)
  with e(1,2) show "e \<in> set (to_ingest s0 vs)"
    by (simp add: to_ingest_eq)
qed

subsection \<open>A run whose events are all stored already\<close>

lemma processValidatedFields_known:
  assumes "(\<lambda>e. id_data (data e)) ` set (to_ingest s vs) \<subseteq> event_id ` set (roulette_events s)"
  shows "roulette_events (snd (processValidatedFields limits now vs s)) = roulette_events s"
proof -
  let ?R = "to_ingest s vs"
  have known: "roulette_events (snd (insert_roulette_events limits now s2 rows)) =
      roulette_events s"
    if cp: "casinoPromises now (s\<lparr>issued := issued s @
          map SelectLatestSettled (uniqueTableIds vs)\<rparr>) (uniqueTables ?R) = (Inr rs, s2)"
      and rd: "rouletteEventsData (casinoCache rs) ?R = Inr rows" for rs s2 rows
  proof -
    from casinoPromises_frame [OF cp] have ev2: "roulette_events s2 = roulette_events s" by simp
    from rouletteEventsData_Inr [OF rd]
    have "event_id_new ` set rows = (\<lambda>e. id_data (data e)) ` set ?R"
      by (auto simp: eventRow_def image_iff)
    with assms ev2 have "event_id_new ` set rows \<subseteq> event_id ` set (roulette_events s2)"
      by simp
    from insert_roulette_events_known [OF this, of limits now] ev2 show ?thesis by simp
  qed
  show ?thesis
  proof (cases limits now vs s rule: processValidatedFields_cases)
    case empty
    then show ?thesis by simp
  next
    case (resolver s2)
    with casinoPromises_frame [OF resolver(2)] show ?thesis by simp
  next
    case (integrity rs s2)
    with casinoPromises_frame [OF integrity(2)] show ?thesis by simp
  next
    case (rejected rs s2 rows)
    with known [OF rejected(2,3)] show ?thesis by simp
  next
    case (inserted rs s2 rows)
    with known [OF inserted(2,3)] show ?thesis by simp
  qed
qed

lemma second_run_keeps_facts:
  assumes first: "processValidatedFields limits now1 vs s0 = (Inr n1, s1)"
  shows "roulette_events (snd (processValidatedFields limits now2 vs s1)) = roulette_events s1"
proof -
  from processValidatedFields_grows [OF first]
  have sub: "set (roulette_events s0) \<subseteq> set (roulette_events s1)"
    "set (casino s0) \<subseteq> set (casino s1)" by auto
  from processValidatedFields_Inr(2) [OF first]
  have "(\<lambda>e. id_data (data e)) ` set (to_ingest s0 vs) \<subseteq> event_id ` set (roulette_events s1)"
    by simp
  with to_ingest_mono [OF sub, of vs]
  have "(\<lambda>e. id_data (data e)) ` set (to_ingest s1 vs) \<subseteq> event_id ` set (roulette_events s1)"
    by blast
  then show ?thesis by (rule processValidatedFields_known)
qed

subsection \<open>The second run under one display name per table id\<close>

lemma uniqueTables_subset:
  assumes sub: "set R2 \<subseteq> set R1"
    and names: "\<forall>e\<in>set R1. \<forall>e'\<in>set R1. tid e = tid e' \<longrightarrow> tname e = tname e'"
  shows "set (uniqueTables R2) \<subseteq> set (uniqueTables R1)"
proof
  fix p
  assume p: "p \<in> set (uniqueTables R2)"
  obtain t n where tn: "p = (t, n)" by (cases p)
  from uniqueTables_entry [of t n R2] p tn obtain e where
    e: "e \<in> set R2" "tid e = t" "tname e = n" by auto
  with sub have e1: "e \<in> set R1" by auto
  with e(2) have "t \<in> fst ` set (uniqueTables R1)" by (auto simp: fst_set_uniqueTables)
  then obtain n' where n': "(t, n') \<in> set (uniqueTables R1)" by auto
  from uniqueTables_entry [OF n'] obtain e' where
    e': "e' \<in> set R1" "tid e' = t" "tname e' = n'" by auto
  from names e1 e'(1) have "tid e = tid e' \<longrightarrow> tname e = tname e'" by blast
  with e(2) e'(2) have "tname e = tname e'" by simp
  with e(3) e'(3) n' tn show "p \<in> set (uniqueTables R1)" by simp
qed

text \<open>What the store takes of a row does not depend on the casino id of the row.\<close>

lemma row_accepted_eventRow:
  "row_accepted limits (eventRow e i) = row_accepted limits (eventRow e j)"
  by (simp add: row_accepted_def eventRow_def)

lemma length_filter_mono:
  "(\<And>x. x \<in> set xs \<Longrightarrow> P x \<Longrightarrow> Q x) \<Longrightarrow> length (filter P xs) \<le> length (filter Q xs)"
  by (induction xs) auto

lemma length_to_ingest_mono:
  assumes "set (to_ingest s1 vs) \<subseteq> set (to_ingest s0 vs)"
  shows "length (to_ingest s1 vs) \<le> length (to_ingest s0 vs)"
proof -
  have "length (filter (\<lambda>e. e \<in> set (to_ingest s1 vs)) vs) \<le>
        length (filter (\<lambda>e. e \<in> set (to_ingest s0 vs)) vs)"
    using assms by (intro length_filter_mono) auto
  moreover have "filter (\<lambda>e. e \<in> set (to_ingest s vs)) vs = to_ingest s vs" for s
    unfolding to_ingest_eq by (rule filter_cong [OF refl]) simp
  ultimately show ?thesis by simp
qed

text \<open>
  A statement with the rows of some of the events of an accepted statement, and no more
  rows than it, is accepted.
\<close>

lemma statement_accepted_subset:
  assumes acc: "statement_accepted limits (map (\<lambda>e. eventRow e (f e)) R1)"
    and sub: "set R2 \<subseteq> set R1" and len: "length R2 \<le> length R1"
  shows "statement_accepted limits (map (\<lambda>e. eventRow e (g e)) R2)"
proof -
  from acc have all: "\<And>e. e \<in> set R1 \<Longrightarrow> row_accepted limits (eventRow e (f e))"
    and m: "length R1 \<le> max_rows limits"
    by (simp_all add: statement_accepted_def list_all_iff)
  have "row_accepted limits (eventRow e (g e))" if "e \<in> set R2" for e
  proof -
    from that sub have "e \<in> set R1" by auto
    from all [OF this] show ?thesis
      by (simp add: row_accepted_eventRow [of limits e "g e" "f e"])
  qed
  with m len show ?thesis
    by (simp add: statement_accepted_def list_all_iff)
qed

lemma second_run_returns:
  assumes first: "processValidatedFields limits now1 vs s0 = (Inr n1, s1)"
    and names: "\<forall>e\<in>set vs. \<forall>e'\<in>set vs. tid e = tid e' \<longrightarrow> tname e = tname e'"
  shows "fst (processValidatedFields limits now2 vs s1) = Inr (length (to_ingest s1 vs))"
proof (cases "to_ingest s1 vs = []")
  case True
  then show ?thesis by (simp add: processValidatedFields_eq)
next
  case False
  let ?R1 = "to_ingest s0 vs" and ?R2 = "to_ingest s1 vs"
  let ?q0 = "s0\<lparr>issued := issued s0 @ map SelectLatestSettled (uniqueTableIds vs)\<rparr>"
  let ?q1 = "s1\<lparr>issued := issued s1 @ map SelectLatestSettled (uniqueTableIds vs)\<rparr>"
  from processValidatedFields_grows [OF first]
  have grow: "set (roulette_events s0) \<subseteq> set (roulette_events s1)"
    "set (casino s0) \<subseteq> set (casino s1)" by auto
  note sub = to_ingest_mono [OF grow, of vs]
  note len = length_to_ingest_mono [OF sub]
  with False have ne1: "?R1 \<noteq> []" by auto
  have R1vs: "set ?R1 \<subseteq> set vs" by (auto simp: to_ingest_eq)
  with names have names1:
    "\<forall>e\<in>set ?R1. \<forall>e'\<in>set ?R1. tid e = tid e' \<longrightarrow> tname e = tname e'"
    by blast
  note tabs = uniqueTables_subset [OF sub names1]
  obtain rs1 s1' rows1 where cp1: "casinoPromises now1 ?q0 (uniqueTables ?R1) = (Inr rs1, s1')"
    and rd1: "rouletteEventsData (casinoCache rs1) ?R1 = Inr rows1"
    and acc1: "statement_accepted limits rows1"
    and s1: "s1 = snd (insert_roulette_events limits now1 s1' rows1)"
  proof (cases limits now1 vs s0 rule: processValidatedFields_cases)
    case empty
    with ne1 show ?thesis by simp
  next
    case (resolver s2)
    with first show ?thesis by simp
  next
    case (integrity rs s2)
    with first show ?thesis by simp
  next
    case (rejected rs s2 rows)
    with first show ?thesis by simp
  next
    case (inserted rs s2 rows)
    with first have "s1 = snd (insert_roulette_events limits now1 s2 rows)" by simp
    with inserted(2,3,4) show ?thesis by (rule that)
  qed
  have cas: "casino ?q1 = casino s1'" by (simp add: s1)
  have sel: "select_casino ?q1 t n = select_casino s1' t n" for t n
    by (rule select_casino_same [OF cas])
  have found: "select_casino ?q1 t n \<noteq> [] \<and>
      casinoCache rs1 t = Some (hd (select_casino ?q1 t n))"
    if "(t, n) \<in> set (uniqueTables ?R2)" for t n
  proof -
    from that tabs have "(t, n) \<in> set (uniqueTables ?R1)" by auto
    from casinoPromises_cache [OF cp1 distinct_uniqueTables this]
    show ?thesis by (simp only: sel) simp
  qed
  then have all: "\<forall>p\<in>set (uniqueTables ?R2). select_casino ?q1 (fst p) (snd p) \<noteq> []"
    by auto
  let ?rs2 = "map (\<lambda>p. (fst p, hd (select_casino ?q1 (fst p) (snd p)))) (uniqueTables ?R2)"
  note cp2 = casinoPromises_all_found [OF all, of now2]
  have keys2: "distinct (map fst ?rs2)"
    using distinct_uniqueTables [of ?R2] by (simp add: comp_def)
  have cache2: "\<exists>i. casinoCache ?rs2 (tid e) = Some i \<and> i \<noteq> 0" if e: "e \<in> set ?R2" for e
  proof -
    from e have "tid e \<in> fst ` set (uniqueTables ?R2)" by (simp add: fst_set_uniqueTables)
    then obtain n where n: "(tid e, n) \<in> set (uniqueTables ?R2)" by auto
    then have "(tid e, hd (select_casino ?q1 (tid e) n)) \<in> set ?rs2" by force
    from casinoCache_distinct [OF keys2 this]
    have c2: "casinoCache ?rs2 (tid e) = Some (hd (select_casino ?q1 (tid e) n))" .
    from found [OF n] have c1: "casinoCache rs1 (tid e) = Some (hd (select_casino ?q1 (tid e) n))"
      by simp
    from e sub have "e \<in> set ?R1" by auto
    with rouletteEventsData_Inr [OF rd1] obtain i where
      "casinoCache rs1 (tid e) = Some i" "i \<noteq> 0" by auto
    with c1 c2 show ?thesis by simp
  qed
  then have "\<forall>e\<in>set ?R2. \<exists>i. casinoCache ?rs2 (tid e) = Some i \<and> i \<noteq> 0" by blast
  note rd2 = rouletteEventsData_total [OF this]
  from rouletteEventsData_Inr [OF rd1] acc1
  have "statement_accepted limits (map (\<lambda>e. eventRow e (the (casinoCache rs1 (tid e)))) ?R1)"
    by simp
  from statement_accepted_subset [OF this sub len]
  have acc2: "statement_accepted limits
      (map (\<lambda>e. eventRow e (the (casinoCache ?rs2 (tid e)))) ?R2)" .
  from rd2 cp2 False acc2 show ?thesis
    by (simp add: processValidatedFields_eq insert_roulette_events_accepted)
qed

text \<open>
  Claim C3 as stated does not hold: the second run need not return a count. The payload
  has two elements with one inner id, settled at 5 and at 7, that carry the table
  \<^verbatim>\<open>204\<close> under two display names. The first run, on the empty store, returns
  \<^verbatim>\<open>{processed: 2}\<close>: it creates the casino under the first name and stores the first
  element (the second is skipped on the event id). In the second run only the second
  element passes the watermark, the lookup of its pair finds nothing, the insert hits the
  uniqueness constraint on \<^verbatim>\<open>table_id\<close>, and the run ends with the storage error.
\<close>

theorem second_run_can_abort:
  "fst (processValidatedFields pg_limits 100 renamed_twin_batch empty_store) = Inr 2
   \<and> fst (processValidatedFields pg_limits 200 renamed_twin_batch
            (snd (processValidatedFields pg_limits 100 renamed_twin_batch empty_store))) =
       Inl StorageError"
  by (simp add: pipeline_defs renamed_twin_batch_def sample_defs)

text \<open>
  Claim C3, amended. Run the pipeline a second time with the same validated payload,
  from the store a first run that returned has left. Whether the second run returns or
  ends with an error, the fact table is as the first run left it: the same rows, so the
  same row count, and no second row for an event id. When every table id of the payload
  carries one display name throughout the payload, the second run returns a processed
  count (at least 0): the size of its own to-ingest set.
\<close>

theorem second_run_adds_no_fact:
  assumes "processValidatedFields limits now1 validatedFields s0 = (Inr processed1, s1)"
  shows "roulette_events (snd (processValidatedFields limits now2 validatedFields s1)) = roulette_events s1
    \<and> length (roulette_events (snd (processValidatedFields limits now2 validatedFields s1))) =
        length (roulette_events s1)
    \<and> ((\<forall>event\<in>set validatedFields. \<forall>event'\<in>set validatedFields.
           tid event = tid event' \<longrightarrow> tname event = tname event') \<longrightarrow>
        (\<exists>processed2. fst (processValidatedFields limits now2 validatedFields s1) = Inr processed2 \<and>
           0 \<le> processed2 \<and> processed2 = length (to_ingest s1 validatedFields)))"
proof (intro conjI impI)
  show keep: "roulette_events (snd (processValidatedFields limits now2 validatedFields s1)) =
      roulette_events s1"
    by (rule second_run_keeps_facts [OF assms])
  show "length (roulette_events (snd (processValidatedFields limits now2 validatedFields s1))) =
        length (roulette_events s1)"
    by (simp only: keep)
  assume "\<forall>event\<in>set validatedFields. \<forall>event'\<in>set validatedFields.
           tid event = tid event' \<longrightarrow> tname event = tname event'"
  from second_run_returns [OF assms this, of now2]
  show "\<exists>processed2. fst (processValidatedFields limits now2 validatedFields s1) = Inr processed2 \<and>
           0 \<le> processed2 \<and> processed2 = length (to_ingest s1 validatedFields)"
    by blast
qed

theorem second_run_adds_no_fact_witness:
  "fst (processValidatedFields pg_limits 100 twin_late_batch empty_store) = Inr 2
   \<and> length (roulette_events (snd (processValidatedFields pg_limits 100 twin_late_batch empty_store))) = 1
   \<and> fst (processValidatedFields pg_limits 200 twin_late_batch
            (snd (processValidatedFields pg_limits 100 twin_late_batch empty_store))) = Inr 1
   \<and> length (roulette_events (snd (processValidatedFields pg_limits 200 twin_late_batch
            (snd (processValidatedFields pg_limits 100 twin_late_batch empty_store))))) = 1"
proof -
  let ?s1 = "snd (processValidatedFields pg_limits 100 twin_late_batch empty_store)"
  have first: "processValidatedFields pg_limits 100 twin_late_batch empty_store = (Inr 2, ?s1)"
    by (simp add: pipeline_defs twin_late_batch_def sample_defs)
  have rows: "length (roulette_events ?s1) = 1"
    by (simp add: pipeline_defs twin_late_batch_def sample_defs)
  have second: "fst (processValidatedFields pg_limits 200 twin_late_batch ?s1) = Inr 1"
    by (simp add: pipeline_defs twin_late_batch_def sample_defs)
  from first have count: "fst (processValidatedFields pg_limits 100 twin_late_batch empty_store) = Inr 2"
    by (rule arg_cong [where f = fst, THEN trans]) simp
  have names: "\<forall>event\<in>set twin_late_batch. \<forall>event'\<in>set twin_late_batch.
           tid event = tid event' \<longrightarrow> tname event = tname event'"
    by (simp add: twin_late_batch_def sample_defs)
  from second_run_adds_no_fact [OF first, of 200] names
  have "length (roulette_events (snd (processValidatedFields pg_limits 200 twin_late_batch ?s1))) =
      length (roulette_events ?s1)"
    and "\<exists>processed2. fst (processValidatedFields pg_limits 200 twin_late_batch ?s1) = Inr processed2"
    by blast+
  with count rows second show ?thesis
    by simp
qed

end
